theory Spec2Isabelle
  imports Complex_Main
begin

section \<open>Rolling window (src/src/utils/rollingWindow.ts)\<close>

text \<open>
  JavaScript numbers that the code itself counts up and down (\<open>inFlight\<close>, the half-open
  counters, indices) and millisecond timestamps are modelled as integers (\<open>nat\<close> for
  array sizes and indices, \<open>int\<close> elsewhere). The limits \<open>maxInFlight\<close>, \<open>maxQueue\<close> and
  \<open>halfOpenProbeCount\<close> come from the caller and the constructors only check that they
  are finite and of the right sign, so they are exact rationals, as are the failure rate
  and the failure threshold. \<open>Number.isFinite\<close> holds for every such value, so only the
  sign checks of the constructors remain. The window size is an integer: for any other
  size the array allocation in the window's constructor throws and no window exists.

  The ring buffer \<open>buf\<close> holds the pushed outcomes, \<open>0\<close> for a success and \<open>1\<close> for a
  failure (the parameter type of \<open>push\<close> is \<open>0 | 1\<close>).
\<close>

record RollingWindow =
  size_rw :: nat
  buf :: "nat list"
  idx :: nat
  filled :: bool

text \<open>The object the constructor builds once its check has passed.\<close>

definition RollingWindow_init :: "int \<Rightarrow> RollingWindow" where
  "RollingWindow_init n =
     \<lparr>size_rw = nat n, buf = replicate (nat n) 0, idx = 0, filled = False\<rparr>"

text \<open>The constructor: \<open>None\<close> is the thrown error "window size must be > 0".\<close>

definition new_RollingWindow :: "int \<Rightarrow> RollingWindow option" where
  "new_RollingWindow n = (if n \<le> 0 then None else Some (RollingWindow_init n))"

text \<open>
  \<open>push\<close> writes at the write index and advances it. In every window built by the
  constructor the index is inside the buffer (\<open>holds\<close> below gives \<open>idx < size\<close> and
  \<open>length buf = size\<close>), so the assignment overwrites a slot and never extends the array.
\<close>

definition push :: "RollingWindow \<Rightarrow> nat \<Rightarrow> RollingWindow" where
  "push w v =
     (let w1 = w\<lparr>buf := (buf w)[idx w := v]\<rparr>;
          w2 = w1\<lparr>idx := (idx w1 + 1) mod size_rw w1\<rparr>
      in if idx w2 = 0 then w2\<lparr>filled := True\<rparr> else w2)"

definition count :: "RollingWindow \<Rightarrow> nat" where
  "count w = (if filled w then size_rw w else idx w)"

text \<open>The summing loop \<open>for (let i = 0; i < n; i++) sum += this.buf[i]\<close>.\<close>

definition failures :: "RollingWindow \<Rightarrow> nat" where
  "failures w = (let n = count w in fold (\<lambda>i s. s + buf w ! i) [0..<n] 0)"

definition failureRate :: "RollingWindow \<Rightarrow> rat" where
  "failureRate w =
     (let n = count w in if n = 0 then 0 else of_nat (failures w) / of_nat n)"

definition reset :: "RollingWindow \<Rightarrow> RollingWindow" where
  "reset w = w\<lparr>idx := 0, filled := False, buf := map (\<lambda>_. 0) (buf w)\<rparr>"

text \<open>The last \<open>n\<close> elements of a list, oldest first.\<close>

definition lastn :: "nat \<Rightarrow> 'a list \<Rightarrow> 'a list" where
  "lastn n xs = drop (length xs - n) xs"

text \<open>
  The relation between a window and the outcomes \<open>vs\<close> pushed into it since it was built
  or reset: while the ring has not wrapped, the pushed outcomes occupy the front of the
  buffer; afterwards the buffer, read from the write index, is the last \<open>size\<close> outcomes.
\<close>

definition holds :: "RollingWindow \<Rightarrow> nat list \<Rightarrow> bool" where
  "holds w vs \<longleftrightarrow>
     0 < size_rw w \<and> length (buf w) = size_rw w \<and>
     idx w = length vs mod size_rw w \<and>
     filled w = (size_rw w \<le> length vs) \<and>
     (if filled w
      then drop (idx w) (buf w) @ take (idx w) (buf w) = lastn (size_rw w) vs
      else buf w = vs @ replicate (size_rw w - length vs) 0)"

section \<open>Circuit breaker (src/breaker.ts, second part of src/src/types.ts)\<close>

datatype BreakerState = CLOSED | OPEN | HALF_OPEN

record BreakerOptions =
  windowSize :: int
  minRequests :: int
  failureThreshold :: rat
  cooldownMs :: int
  halfOpenProbeCount :: rat

record BreakerBucket =
  state :: BreakerState
  openedAtMs :: "int option"
  halfOpenInFlight :: int
  window :: RollingWindow
  halfOpenSuccesses :: int
  halfOpenFailures :: int

record BreakerDecision =
  allowed :: bool
  state_d :: BreakerState
  retryAfterMs :: "int option"

text \<open>The value \<open>{ changed, from?, to? }\<close> that \<open>onSuccess\<close> and \<open>onFailure\<close> return.\<close>

record BreakerChange =
  changed :: bool
  from_state :: "BreakerState option"
  to_state :: "BreakerState option"

record CircuitBreaker =
  opts :: BreakerOptions
  buckets :: "string \<rightharpoonup> BreakerBucket"

text \<open>The constructor: \<open>None\<close> is any of its thrown validation errors.\<close>

definition new_CircuitBreaker :: "BreakerOptions \<Rightarrow> CircuitBreaker option" where
  "new_CircuitBreaker os =
     (if windowSize os \<le> 0 then None
      else if minRequests os < 0 then None
      else if failureThreshold os < 0 \<or> failureThreshold os > 1 then None
      else if cooldownMs os \<le> 0 then None
      else if halfOpenProbeCount os \<le> 0 then None
      else Some \<lparr>opts = os, buckets = Map.empty\<rparr>)"

text \<open>
  \<open>bucket\<close> returns the bucket of a key, creating it on first reference. The window
  constructor it calls cannot throw: \<open>opts\<close> is read-only and the breaker's constructor has
  checked \<open>windowSize > 0\<close> (lemma \<open>new_CircuitBreaker_window\<close> below), so the bucket gets
  \<open>RollingWindow_init\<close>.
\<close>

definition bucket :: "CircuitBreaker \<Rightarrow> string \<Rightarrow> BreakerBucket \<times> CircuitBreaker" where
  "bucket br key =
     (case buckets br key of
        Some b \<Rightarrow> (b, br)
      | None \<Rightarrow>
          (let b = \<lparr>state = CLOSED, openedAtMs = None, halfOpenInFlight = 0,
                    window = RollingWindow_init (windowSize (opts br)),
                    halfOpenSuccesses = 0, halfOpenFailures = 0\<rparr>
           in (b, br\<lparr>buckets := (buckets br)(key \<mapsto> b)\<rparr>)))"

definition toOpen :: "BreakerBucket \<Rightarrow> int \<Rightarrow> BreakerBucket" where
  "toOpen b nowMs =
     b\<lparr>state := OPEN, openedAtMs := Some nowMs,
       halfOpenInFlight := 0, halfOpenSuccesses := 0, halfOpenFailures := 0\<rparr>"

definition toHalfOpen :: "BreakerBucket \<Rightarrow> BreakerBucket" where
  "toHalfOpen b =
     b\<lparr>state := HALF_OPEN, openedAtMs := None,
       halfOpenInFlight := 0, halfOpenSuccesses := 0, halfOpenFailures := 0\<rparr>"

definition toClosed :: "BreakerBucket \<Rightarrow> BreakerBucket" where
  "toClosed b =
     b\<lparr>state := CLOSED, openedAtMs := None, window := reset (window b),
       halfOpenInFlight := 0, halfOpenSuccesses := 0, halfOpenFailures := 0\<rparr>"

text \<open>
  The three operations mutate the bucket object held in the map. Each is modelled in two
  layers: the body of the method as a function on the bucket (\<open>allow_bucket\<close>,
  \<open>onSuccess_bucket\<close>, \<open>onFailure_bucket\<close>), and the method itself, which fetches the
  bucket with \<open>bucket\<close> and leaves the mutated bucket under the key.
\<close>

text \<open>The \<open>HALF_OPEN\<close> branch of \<open>allow\<close>, reached directly or after the cooldown.\<close>

definition allow_tail :: "BreakerOptions \<Rightarrow> BreakerBucket \<Rightarrow> BreakerDecision \<times> BreakerBucket" where
  "allow_tail os b =
     (if state b = HALF_OPEN then
        (if of_int (halfOpenInFlight b) \<ge> halfOpenProbeCount os
         then (\<lparr>allowed = False, state_d = HALF_OPEN, retryAfterMs = Some 0\<rparr>, b)
         else (\<lparr>allowed = True, state_d = HALF_OPEN, retryAfterMs = None\<rparr>,
               b\<lparr>halfOpenInFlight := halfOpenInFlight b + 1\<rparr>))
      else (\<lparr>allowed = True, state_d = CLOSED, retryAfterMs = None\<rparr>, b))"

definition allow_bucket ::
  "BreakerOptions \<Rightarrow> BreakerBucket \<Rightarrow> int \<Rightarrow> BreakerDecision \<times> BreakerBucket" where
  "allow_bucket os b nowMs =
     (if state b = OPEN then
        (let elapsed = nowMs - (case openedAtMs b of Some t \<Rightarrow> t | None \<Rightarrow> nowMs);
             remaining = cooldownMs os - elapsed
         in if remaining > 0
            then (\<lparr>allowed = False, state_d = OPEN, retryAfterMs = Some remaining\<rparr>, b)
            else allow_tail os (toHalfOpen b))
      else allow_tail os b)"

definition onSuccess_bucket :: "BreakerOptions \<Rightarrow> BreakerBucket \<Rightarrow> BreakerChange \<times> BreakerBucket" where
  "onSuccess_bucket os b =
     (if state b = HALF_OPEN then
        (let b1 = b\<lparr>halfOpenInFlight := max 0 (halfOpenInFlight b - 1)\<rparr>;
             b2 = b1\<lparr>halfOpenSuccesses := halfOpenSuccesses b1 + 1\<rparr>
         in if of_int (halfOpenSuccesses b2) \<ge> halfOpenProbeCount os
            then (\<lparr>changed = True, from_state = Some HALF_OPEN, to_state = Some CLOSED\<rparr>,
                  toClosed b2)
            else (\<lparr>changed = False, from_state = None, to_state = None\<rparr>, b2))
      else if state b = CLOSED
      then (\<lparr>changed = False, from_state = None, to_state = None\<rparr>,
            b\<lparr>window := push (window b) 0\<rparr>)
      else (\<lparr>changed = False, from_state = None, to_state = None\<rparr>, b))"

definition onFailure_bucket ::
  "BreakerOptions \<Rightarrow> BreakerBucket \<Rightarrow> int \<Rightarrow> BreakerChange \<times> BreakerBucket" where
  "onFailure_bucket os b nowMs =
     (if state b = HALF_OPEN then
        (let b1 = b\<lparr>halfOpenInFlight := max 0 (halfOpenInFlight b - 1)\<rparr>;
             b2 = b1\<lparr>halfOpenFailures := halfOpenFailures b1 + 1\<rparr>
         in (\<lparr>changed = True, from_state = Some HALF_OPEN, to_state = Some OPEN\<rparr>,
             toOpen b2 nowMs))
      else if state b = CLOSED then
        (let b1 = b\<lparr>window := push (window b) 1\<rparr>;
             n = count (window b1)
         in if int n \<ge> minRequests os \<and> failureRate (window b1) \<ge> failureThreshold os
            then (\<lparr>changed = True, from_state = Some CLOSED, to_state = Some OPEN\<rparr>,
                  toOpen b1 nowMs)
            else (\<lparr>changed = False, from_state = None, to_state = None\<rparr>, b1))
      else (\<lparr>changed = False, from_state = None, to_state = None\<rparr>, b))"

definition allow :: "CircuitBreaker \<Rightarrow> string \<Rightarrow> int \<Rightarrow> BreakerDecision \<times> CircuitBreaker" where
  "allow br key nowMs =
     (let (b, br1) = bucket br key;
          (d, b') = allow_bucket (opts br1) b nowMs
      in (d, br1\<lparr>buckets := (buckets br1)(key \<mapsto> b')\<rparr>))"

definition onSuccess :: "CircuitBreaker \<Rightarrow> string \<Rightarrow> BreakerChange \<times> CircuitBreaker" where
  "onSuccess br key =
     (let (b, br1) = bucket br key;
          (c, b') = onSuccess_bucket (opts br1) b
      in (c, br1\<lparr>buckets := (buckets br1)(key \<mapsto> b')\<rparr>))"

definition onFailure :: "CircuitBreaker \<Rightarrow> string \<Rightarrow> int \<Rightarrow> BreakerChange \<times> CircuitBreaker" where
  "onFailure br key nowMs =
     (let (b, br1) = bucket br key;
          (c, b') = onFailure_bucket (opts br1) b nowMs
      in (c, br1\<lparr>buckets := (buckets br1)(key \<mapsto> b')\<rparr>))"

text \<open>
  \<open>state(key)\<close> reads the state of the key's bucket. For a key without a bucket the
  source creates the bucket first; the value read is the state it is created with, and
  every later call would create the same bucket, so the read is modelled without
  threading the breaker.
\<close>

definition state_of :: "CircuitBreaker \<Rightarrow> string \<Rightarrow> BreakerState" where
  "state_of br key = state (fst (bucket br key))"

text \<open>A sequence of calls on one breaker, as a caller of the class can make them.\<close>

datatype breaker_call = Allow string int | OnSuccess string | OnFailure string int

fun call :: "CircuitBreaker \<Rightarrow> breaker_call \<Rightarrow> CircuitBreaker" where
  "call br (Allow key nowMs) = snd (allow br key nowMs)"
| "call br (OnSuccess key) = snd (onSuccess br key)"
| "call br (OnFailure key nowMs) = snd (onFailure br key nowMs)"

section \<open>Errors (src/errors.ts)\<close>

text \<open>
  Modelled from the spec: the error classes of \<open>src/errors.ts\<close>, which is not among the
  sources. The spec's taxonomy is \<open>QueueFull(max_queue)\<close>, \<open>QueueTimeout(enqueue_timeout)\<close>,
  \<open>CircuitOpen{key, retry_after_ms}\<close>, \<open>RequestTimeout{deadline_ms}\<close> and transport errors
  surfaced as they are; \<open>Error\<close> is JavaScript's plain \<open>Error\<close> with its message.
\<close>

datatype error =
    QueueFullError rat
  | QueueTimeoutError int
  | CircuitOpenError string int
  | RequestTimeoutError int
  | TransportError string
  | Error string

section \<open>Promises and timers\<close>

text \<open>
  The part of the JavaScript runtime the limiter talks to. A promise is a number; it is
  pending until it is settled, and settling a settled promise does nothing. A timer is a
  number too; \<open>armed\<close> holds the timers that are scheduled and not yet fired or cleared,
  and \<open>delay\<close> the milliseconds each timer was set for. \<open>fresh\<close> is the next unused
  number. The clock is not modelled: an armed timer may fire at any moment.
\<close>

datatype settlement = Fulfilled | Rejected error

record Runtime =
  settled :: "nat \<rightharpoonup> settlement"
  armed :: "nat set"
  delay :: "nat \<rightharpoonup> int"
  fresh :: nat

definition Runtime_init :: Runtime where
  "Runtime_init = \<lparr>settled = Map.empty, armed = {}, delay = Map.empty, fresh = 0\<rparr>"

text \<open>
  Creating a promise takes the next unused number: \<open>new Promise(...)\<close> makes a pending
  promise, \<open>Promise.resolve()\<close> a fulfilled one and \<open>Promise.reject(err)\<close> a rejected one.
\<close>

definition new_Promise :: "Runtime \<Rightarrow> nat \<times> Runtime" where
  "new_Promise rt =
     (fresh rt, rt\<lparr>settled := (settled rt)(fresh rt := None), fresh := fresh rt + 1\<rparr>)"

definition Promise_resolve :: "Runtime \<Rightarrow> nat \<times> Runtime" where
  "Promise_resolve rt =
     (fresh rt, rt\<lparr>settled := (settled rt)(fresh rt \<mapsto> Fulfilled), fresh := fresh rt + 1\<rparr>)"

definition Promise_reject :: "Runtime \<Rightarrow> error \<Rightarrow> nat \<times> Runtime" where
  "Promise_reject rt err =
     (fresh rt, rt\<lparr>settled := (settled rt)(fresh rt \<mapsto> Rejected err), fresh := fresh rt + 1\<rparr>)"

text \<open>Calling the \<open>resolve\<close> or \<open>reject\<close> function of the promise \<open>p\<close>.\<close>

definition settle :: "Runtime \<Rightarrow> nat \<Rightarrow> settlement \<Rightarrow> Runtime" where
  "settle rt p s = (if settled rt p = None then rt\<lparr>settled := (settled rt)(p \<mapsto> s)\<rparr> else rt)"

definition setTimeout :: "Runtime \<Rightarrow> nat \<Rightarrow> int \<Rightarrow> Runtime" where
  "setTimeout rt t ms = rt\<lparr>armed := insert t (armed rt), delay := (delay rt)(t \<mapsto> ms)\<rparr>"

definition clearTimeout :: "Runtime \<Rightarrow> nat \<Rightarrow> Runtime" where
  "clearTimeout rt t = rt\<lparr>armed := armed rt - {t}\<rparr>"

section \<open>Concurrency limiter (src/limiter.ts, second part of src/docs/DESIGN.md)\<close>

text \<open>
  A waiter holds the \<open>resolve\<close> and \<open>reject\<close> functions of its promise, modelled as the
  number of that promise, and the handle of its expiration timer.
\<close>

record Waiter =
  resolve :: nat
  reject :: nat
  timer :: nat

record ConcurrencyLimiter =
  maxInFlight :: rat
  maxQueue :: rat
  enqueueTimeoutMs :: int
  inFlight :: int
  queue :: "Waiter list"

text \<open>The constructor: \<open>None\<close> is any of its thrown validation errors.\<close>

definition new_ConcurrencyLimiter :: "rat \<Rightarrow> rat \<Rightarrow> int \<Rightarrow> ConcurrencyLimiter option" where
  "new_ConcurrencyLimiter mif mq et =
     (if mif \<le> 0 then None
      else if mq < 0 then None
      else if et \<le> 0 then None
      else Some \<lparr>maxInFlight = mif, maxQueue = mq, enqueueTimeoutMs = et,
                 inFlight = 0, queue = []\<rparr>)"

text \<open>\<open>Array.prototype.findIndex\<close>; \<open>None\<close> is its result \<open>-1\<close>.\<close>

fun findIndex :: "('a \<Rightarrow> bool) \<Rightarrow> 'a list \<Rightarrow> nat option" where
  "findIndex P [] = None"
| "findIndex P (x # xs) = (if P x then Some 0 else map_option Suc (findIndex P xs))"

text \<open>\<open>xs.splice(i, 1)\<close>: the array without its element at index \<open>i\<close>.\<close>

definition splice1 :: "nat \<Rightarrow> 'a list \<Rightarrow> 'a list" where
  "splice1 i xs = take i xs @ drop (Suc i) xs"

text \<open>
  \<open>acquire\<close> returns a promise: fulfilled at once on the fast path, rejected at once when
  the queue is disabled or full, pending otherwise. On the slow path the timer of the
  new waiter carries the number of the waiter's promise, which its callback closes over.
\<close>

definition acquire :: "ConcurrencyLimiter \<Rightarrow> Runtime \<Rightarrow> nat \<times> ConcurrencyLimiter \<times> Runtime" where
  "acquire lm rt =
     (if of_int (inFlight lm) < maxInFlight lm
      then (let (p, rt1) = Promise_resolve rt
            in (p, lm\<lparr>inFlight := inFlight lm + 1\<rparr>, rt1))
      else if maxQueue lm = 0 \<or> of_nat (length (queue lm)) \<ge> maxQueue lm
      then (let (p, rt1) = Promise_reject rt (QueueFullError (maxQueue lm))
            in (p, lm, rt1))
      else (let (p, rt1) = new_Promise rt;
                rt2 = setTimeout rt1 p (enqueueTimeoutMs lm)
            in (p, lm\<lparr>queue := queue lm @ [\<lparr>resolve = p, reject = p, timer = p\<rparr>]\<rparr>, rt2)))"

text \<open>
  The callback that \<open>acquire\<close> hands to \<open>setTimeout\<close>, for the waiter of promise \<open>p\<close>: it
  removes the waiter from the queue if it is still there, and rejects the promise.
\<close>

definition acquire_timeout :: "ConcurrencyLimiter \<Rightarrow> Runtime \<Rightarrow> nat \<Rightarrow> ConcurrencyLimiter \<times> Runtime" where
  "acquire_timeout lm rt p =
     (let (lm1, rt1) =
            (case findIndex (\<lambda>w. resolve w = p) (queue lm) of
               Some i \<Rightarrow> (lm\<lparr>queue := splice1 i (queue lm)\<rparr>,
                          clearTimeout rt (timer (queue lm ! i)))
             | None \<Rightarrow> (lm, rt))
      in (lm1, settle rt1 p (Rejected (QueueTimeoutError (enqueueTimeoutMs lm1)))))"

text \<open>\<open>release\<close>: \<open>Inl\<close> is the error it throws, with the state as it was.\<close>

definition release :: "ConcurrencyLimiter \<Rightarrow> Runtime \<Rightarrow> error + ConcurrencyLimiter \<times> Runtime" where
  "release lm rt =
     (if inFlight lm \<le> 0
      then Inl (Error ''release() called when inFlight is already 0'')
      else (case queue lm of
              next # rest \<Rightarrow>
                Inr (lm\<lparr>queue := rest\<rparr>, settle (clearTimeout rt (timer next)) (resolve next) Fulfilled)
            | [] \<Rightarrow> Inr (lm\<lparr>inFlight := inFlight lm - 1\<rparr>, rt)))"

text \<open>
  The interleavings of the limiter: callers acquire and release, and the runtime fires an
  armed timer (a timer that is not armed cannot fire). A \<open>release\<close> that throws leaves
  the state as it was.
\<close>

datatype limiter_op = Acquire | Release | Fire nat

fun is_Fire :: "limiter_op \<Rightarrow> bool" where
  "is_Fire (Fire t) = True"
| "is_Fire _ = False"

fun step :: "ConcurrencyLimiter \<times> Runtime \<Rightarrow> limiter_op \<Rightarrow> ConcurrencyLimiter \<times> Runtime" where
  "step (lm, rt) Acquire = snd (acquire lm rt)"
| "step (lm, rt) Release = (case release lm rt of Inl e \<Rightarrow> (lm, rt) | Inr s \<Rightarrow> s)"
| "step (lm, rt) (Fire t) =
     (if t \<in> armed rt then acquire_timeout lm (rt\<lparr>armed := armed rt - {t}\<rparr>) t else (lm, rt))"

definition run :: "ConcurrencyLimiter \<times> Runtime \<Rightarrow> limiter_op list \<Rightarrow> ConcurrencyLimiter \<times> Runtime" where
  "run s ops = foldl step s ops"

text \<open>
  What the promise discipline maintains for the queue, whatever the limits are: each
  queued waiter holds the two functions and the timer of one promise, that promise is
  pending and its timer armed, no other timer is armed, and the waiters stand in the
  order of their creation.
\<close>

definition waiters_inv :: "ConcurrencyLimiter \<times> Runtime \<Rightarrow> bool" where
  "waiters_inv s \<longleftrightarrow>
     (let lm = fst s; rt = snd s in
      (\<forall>w \<in> set (queue lm). reject w = resolve w \<and> timer w = resolve w \<and>
           resolve w < fresh rt \<and> settled rt (resolve w) = None) \<and>
      armed rt = timer ` set (queue lm) \<and>
      sorted_wrt (<) (map resolve (queue lm)))"

text \<open>
  The capacity bounds of the limiter's comments: the counters are in range and waiters
  queue only while every permit is taken.
\<close>

definition capacity_inv :: "ConcurrencyLimiter \<Rightarrow> bool" where
  "capacity_inv lm \<longleftrightarrow>
     0 \<le> inFlight lm \<and> of_int (inFlight lm) \<le> maxInFlight lm \<and>
     of_nat (length (queue lm)) \<le> maxQueue lm \<and>
     (queue lm \<noteq> [] \<longrightarrow> of_int (inFlight lm) = maxInFlight lm)"

section \<open>Request pipeline (src/client.ts, second part of src/src/events.ts)\<close>

datatype HttpMethod = GET | POST | PUT | PATCH | DELETE | HEAD | OPTIONS

record ResilientRequest =
  http_method :: HttpMethod
  url :: string
  headers :: "(string \<times> string) list option"
  body :: "string option"

record ResilientResponse =
  status :: int
  headers_r :: "(string \<times> string) list"
  body_r :: "nat list"

text \<open>The events of \<open>src/events.ts\<close> that the pipeline emits, with their payloads.\<close>

datatype event =
    RequestRejected string string ResilientRequest error
  | RequestStart string string ResilientRequest
  | RequestSuccess string string ResilientRequest int int
  | RequestFailure string string ResilientRequest error int
  | BreakerStateEvent string "BreakerState option" "BreakerState option"

text \<open>
  The client owns a limiter and a breaker, and it is an \<open>EventEmitter\<close>. \<open>listeners\<close> is
  what the handlers registered with \<open>on\<close> do with an event, taken together: \<open>None\<close> when
  all of them return, \<open>Some e\<close> when one of them throws \<open>e\<close>. \<open>emitted\<close> is the sequence of
  events emitted so far. The runtime is threaded beside the client, since the limiter
  settles promises in it.
\<close>

record ResilientHttpClient =
  limiter :: ConcurrencyLimiter
  breaker :: CircuitBreaker
  requestTimeoutMs :: int
  keyFn :: "ResilientRequest \<Rightarrow> string"
  listeners :: "event \<Rightarrow> error option"
  emitted :: "event list"

text \<open>
  \<open>EventEmitter.emit\<close> calls the handlers synchronously; an error thrown by a handler
  is thrown by \<open>emit\<close> to its caller. The result is that error, if any.
\<close>

definition emit :: "ResilientHttpClient \<Rightarrow> event \<Rightarrow> error option \<times> ResilientHttpClient" where
  "emit c e = (listeners c e, c\<lparr>emitted := emitted c @ [e]\<rparr>)"

text \<open>
  \<open>on\<close> registers one more handler, \<open>h\<close>, which runs after those registered before it,
  unless one of them has thrown.
\<close>

definition on :: "ResilientHttpClient \<Rightarrow> (event \<Rightarrow> error option) \<Rightarrow> ResilientHttpClient" where
  "on c h = c\<lparr>listeners := (\<lambda>e. case listeners c e of Some err \<Rightarrow> Some err | None \<Rightarrow> h e)\<rparr>"

text \<open>
  The constructor, with the client options spelled out; \<open>kf\<close> is \<open>opts.keyFn\<close> or, when
  that is absent, the default \<open>new URL(req.url).host\<close>. \<open>None\<close> is an error thrown by
  the constructor of the limiter or of the breaker. A new client has no listeners.
\<close>

definition new_ResilientHttpClient ::
  "rat \<Rightarrow> rat \<Rightarrow> int \<Rightarrow> int \<Rightarrow> BreakerOptions \<Rightarrow> (ResilientRequest \<Rightarrow> string)
     \<Rightarrow> ResilientHttpClient option" where
  "new_ResilientHttpClient mif mq et rto bo kf =
     (case new_ConcurrencyLimiter mif mq et of
        None \<Rightarrow> None
      | Some lm \<Rightarrow>
          (case new_CircuitBreaker bo of
             None \<Rightarrow> None
           | Some br \<Rightarrow>
               Some \<lparr>limiter = lm, breaker = br, requestTimeoutMs = rto, keyFn = kf,
                     listeners = (\<lambda>e. None), emitted = []\<rparr>))"

text \<open>
  \<open>request\<close> is an \<open>async\<close> function: it runs in three synchronous stretches, separated by
  its two \<open>await\<close>s, and other requests may run between them. Each stretch is a function
  of the client and the runtime as they are when it starts. A stretch ends by settling
  the request (\<open>Returned\<close> a response or \<open>Threw\<close> an error) or by waiting: for the promise
  of \<open>acquire\<close>, or for the transport, remembering \<open>start\<close>. An error that escapes the
  function, from a handler included, settles the request with that error.
\<close>

datatype outcome = Returned ResilientResponse | Threw error

datatype progress = Settled outcome | AwaitAcquire nat | AwaitTransport int

text \<open>
  First stretch: the breaker decides, then \<open>limiter.acquire()\<close> is called. \<open>requestId\<close> is
  the string \<open>genRequestId\<close> made, \<open>nowMs\<close> the value of \<open>Date.now()\<close>.
\<close>

definition request_begin ::
  "ResilientHttpClient \<Rightarrow> Runtime \<Rightarrow> ResilientRequest \<Rightarrow> string \<Rightarrow> int
     \<Rightarrow> progress \<times> ResilientHttpClient \<times> Runtime" where
  "request_begin c rt req requestId nowMs =
     (let key = keyFn c req;
          (decision, br) = allow (breaker c) key nowMs;
          c1 = c\<lparr>breaker := br\<rparr>
      in if \<not> allowed decision then
           (let err = CircuitOpenError key
                        (case retryAfterMs decision of Some r \<Rightarrow> r | None \<Rightarrow> 0);
                (thrown, c2) = emit c1 (RequestRejected key requestId req err)
            in (Settled (Threw (case thrown of Some e \<Rightarrow> e | None \<Rightarrow> err)), c2, rt))
         else
           (let (p, lm, rt1) = acquire (limiter c1) rt
            in (AwaitAcquire p, c1\<lparr>limiter := lm\<rparr>, rt1)))"

text \<open>
  Second stretch, run once the promise \<open>p\<close> of \<open>acquire\<close> is settled: a rejection is
  emitted and rethrown; otherwise the request starts and the transport is called.
  While \<open>p\<close> is pending the request stays where it is. \<open>request:start\<close> is emitted
  outside every \<open>try\<close>, so a handler that throws there ends the request at once.
\<close>

definition request_acquired ::
  "ResilientHttpClient \<Rightarrow> Runtime \<Rightarrow> ResilientRequest \<Rightarrow> string \<Rightarrow> nat \<Rightarrow> int
     \<Rightarrow> progress \<times> ResilientHttpClient \<times> Runtime" where
  "request_acquired c rt req requestId p nowMs =
     (let key = keyFn c req
      in case settled rt p of
           None \<Rightarrow> (AwaitAcquire p, c, rt)
         | Some (Rejected err) \<Rightarrow>
             (let (thrown, c1) = emit c (RequestRejected key requestId req err)
              in (Settled (Threw (case thrown of Some e \<Rightarrow> e | None \<Rightarrow> err)), c1, rt))
         | Some Fulfilled \<Rightarrow>
             (let (thrown, c1) = emit c (RequestStart key requestId req)
              in case thrown of
                   Some e \<Rightarrow> (Settled (Threw e), c1, rt)
                 | None \<Rightarrow> (AwaitTransport nowMs, c1, rt)))"

text \<open>\<open>if (change.changed) this.emit("breaker:state", ...)\<close>\<close>

definition emit_change ::
  "ResilientHttpClient \<Rightarrow> string \<Rightarrow> BreakerChange \<Rightarrow> error option \<times> ResilientHttpClient" where
  "emit_change c key change =
     (if changed change then emit c (BreakerStateEvent key (from_state change) (to_state change))
      else (None, c))"

text \<open>
  Third stretch, run when \<open>doHttpRequest\<close> has completed with \<open>result\<close>: \<open>Inr\<close> a response,
  \<open>Inl\<close> the error it threw (\<open>RequestTimeoutError\<close> or a transport error). \<open>nowMs\<close> is the
  \<open>Date.now()\<close> of the breaker calls and \<open>endMs\<close> the later one of the duration.

  \<open>try_block\<close> is what follows the \<open>await\<close> inside \<open>try\<close>: \<open>Inr\<close> is the response it
  returns, \<open>Inl\<close> the error with which control reaches \<open>catch\<close>, which is the transport's
  error or one thrown by a handler of \<open>breaker:state\<close> or \<open>request:success\<close>.
\<close>

definition try_block ::
  "ResilientHttpClient \<Rightarrow> ResilientRequest \<Rightarrow> string \<Rightarrow> int \<Rightarrow> error + ResilientResponse
     \<Rightarrow> int \<Rightarrow> int \<Rightarrow> (error + ResilientResponse) \<times> ResilientHttpClient" where
  "try_block c req requestId start result nowMs endMs =
     (let key = keyFn c req
      in case result of
           Inl err \<Rightarrow> (Inl err, c)
         | Inr res \<Rightarrow>
             (let (change, br) =
                    (if status res \<ge> 500 then onFailure (breaker c) key nowMs
                     else onSuccess (breaker c) key);
                  (thrown1, c1) = emit_change (c\<lparr>breaker := br\<rparr>) key change
              in case thrown1 of
                   Some e \<Rightarrow> (Inl e, c1)
                 | None \<Rightarrow>
                     (let durationMs = endMs - start;
                          (thrown2, c2) =
                            emit c1 (RequestSuccess key requestId req (status res) durationMs)
                      in case thrown2 of
                           Some e \<Rightarrow> (Inl e, c2)
                         | None \<Rightarrow> (Inr res, c2))))"

text \<open>
  \<open>catch_block\<close> is the \<open>catch (err)\<close> clause; its result is the error that leaves it:
  \<open>err\<close> rethrown, or an error thrown by a handler.
\<close>

definition catch_block ::
  "ResilientHttpClient \<Rightarrow> ResilientRequest \<Rightarrow> string \<Rightarrow> int \<Rightarrow> error
     \<Rightarrow> int \<Rightarrow> int \<Rightarrow> error \<times> ResilientHttpClient" where
  "catch_block c req requestId start err nowMs endMs =
     (let key = keyFn c req;
          (change, br) = onFailure (breaker c) key nowMs;
          (thrown1, c1) = emit_change (c\<lparr>breaker := br\<rparr>) key change
      in case thrown1 of
           Some e \<Rightarrow> (e, c1)
         | None \<Rightarrow>
             (let durationMs = endMs - start;
                  (thrown2, c2) = emit c1 (RequestFailure key requestId req err durationMs)
              in (case thrown2 of Some e \<Rightarrow> e | None \<Rightarrow> err, c2)))"

text \<open>
  The whole stretch: \<open>try\<close>, then \<open>catch\<close> if an error reached it, then the \<open>finally\<close>
  block, which releases the permit; an error thrown there replaces the outcome.
\<close>

definition request_done ::
  "ResilientHttpClient \<Rightarrow> Runtime \<Rightarrow> ResilientRequest \<Rightarrow> string \<Rightarrow> int
     \<Rightarrow> error + ResilientResponse \<Rightarrow> int \<Rightarrow> int
     \<Rightarrow> progress \<times> ResilientHttpClient \<times> Runtime" where
  "request_done c rt req requestId start result nowMs endMs =
     (let (r, c1) = try_block c req requestId start result nowMs endMs;
          (out, c2) =
            (case r of
               Inr res \<Rightarrow> (Returned res, c1)
             | Inl err \<Rightarrow>
                 (let (e, c2) = catch_block c1 req requestId start err nowMs endMs
                  in (Threw e, c2)))
      in case release (limiter c2) rt of
           Inl e \<Rightarrow> (Settled (Threw e), c2, rt)
         | Inr (lm, rt1) \<Rightarrow> (Settled out, c2\<lparr>limiter := lm\<rparr>, rt1))"

text \<open>
  The rolling window a key has in a breaker: that of its bucket, and for a key without a
  bucket the empty window its bucket would be created with.
\<close>

definition window_of :: "CircuitBreaker \<Rightarrow> string \<Rightarrow> RollingWindow" where
  "window_of br key = window (fst (bucket br key))"

section \<open>Breaker invariant and example configurations\<close>

text \<open>
  What every bucket of a breaker satisfies when the probe count is a whole number: the
  number of admitted half-open probes is within the probe count, and \<open>openedAtMs\<close> is set
  exactly in state \<open>OPEN\<close>.
\<close>

definition bucket_inv :: "BreakerOptions \<Rightarrow> BreakerBucket \<Rightarrow> bool" where
  "bucket_inv os b \<longleftrightarrow>
     0 \<le> halfOpenInFlight b \<and> of_int (halfOpenInFlight b) \<le> halfOpenProbeCount os \<and>
     (state b = OPEN) = (openedAtMs b \<noteq> None)"

text \<open>The calls that report a failure for a given key.\<close>

fun is_failure_of :: "string \<Rightarrow> breaker_call \<Rightarrow> bool" where
  "is_failure_of key (OnFailure k nowMs) = (k = key)"
| "is_failure_of key _ = False"

text \<open>The breaker options used by the tests in \<open>test/breaker.test.ts\<close>.\<close>

definition probe_opts :: BreakerOptions where
  "probe_opts = \<lparr>windowSize = 5, minRequests = 1, failureThreshold = 1,
                  cooldownMs = 100, halfOpenProbeCount = 2\<rparr>"

text \<open>Options that the constructor accepts, with a probe count that is not whole.\<close>

definition frac_opts :: BreakerOptions where
  "frac_opts = \<lparr>windowSize = 5, minRequests = 1, failureThreshold = 1,
                 cooldownMs = 100, halfOpenProbeCount = 3 / 2\<rparr>"

definition test_opts :: BreakerOptions where
  "test_opts = \<lparr>windowSize = 10, minRequests = 4, failureThreshold = 1 / 2,
                 cooldownMs = 1000, halfOpenProbeCount = 2\<rparr>"


text \<open>A limiter with one permit and room for two waiters, as in \<open>test/limiter.test.ts\<close>.\<close>

definition test_limiter :: ConcurrencyLimiter where
  "test_limiter =
     \<lparr>maxInFlight = 1, maxQueue = 2, enqueueTimeoutMs = 200, inFlight = 0, queue = []\<rparr>"

text \<open>A limiter as the constructor builds it for \<open>maxInFlight = 1.5\<close> and \<open>maxQueue = 0.5\<close>.\<close>

definition frac_limiter :: ConcurrencyLimiter where
  "frac_limiter =
     \<lparr>maxInFlight = 3 / 2, maxQueue = 1 / 2, enqueueTimeoutMs = 200, inFlight = 0,
      queue = []\<rparr>"

section \<open>Pipeline events and example clients\<close>

text \<open>The \<open>breaker:state\<close> events that a result of \<open>onSuccess\<close> or \<open>onFailure\<close> gives rise to.\<close>

definition change_events :: "string \<Rightarrow> BreakerChange \<Rightarrow> event list" where
  "change_events key change =
     (if changed change then [BreakerStateEvent key (from_state change) (to_state change)]
      else [])"

text \<open>
  A client with a single permit and the queue disabled, whose breaker opens on the first
  failure and admits one half-open probe; the same client with its permit taken; a
  \<open>GET\<close> request whose key is its URL, and a response with a given status.
\<close>

definition leak_opts :: BreakerOptions where
  "leak_opts = \<lparr>windowSize = 5, minRequests = 1, failureThreshold = 1,
                 cooldownMs = 100, halfOpenProbeCount = 1\<rparr>"

definition leak_client :: ResilientHttpClient where
  "leak_client =
     \<lparr>limiter = \<lparr>maxInFlight = 1, maxQueue = 0, enqueueTimeoutMs = 200, inFlight = 0,
                  queue = []\<rparr>,
      breaker = \<lparr>opts = leak_opts, buckets = Map.empty\<rparr>,
      requestTimeoutMs = 500, keyFn = url, listeners = (\<lambda>e. None), emitted = []\<rparr>"

definition busy_client :: ResilientHttpClient where
  "busy_client = leak_client\<lparr>limiter := (limiter leak_client)\<lparr>inFlight := 1\<rparr>\<rparr>"

definition get_request :: "string \<Rightarrow> ResilientRequest" where
  "get_request u = \<lparr>http_method = GET, url = u, headers = None, body = None\<rparr>"

definition response :: "int \<Rightarrow> ResilientResponse" where
  "response st = \<lparr>status = st, headers_r = [], body_r = []\<rparr>"


text \<open>
  A client built with the breaker options of the tests, and the same client with its
  permit taken and one handler registered, which throws on every \<open>request:success\<close>
  event and returns on every other event.
\<close>

definition quiet_client :: ResilientHttpClient where
  "quiet_client =
     \<lparr>limiter = \<lparr>maxInFlight = 1, maxQueue = 0, enqueueTimeoutMs = 200, inFlight = 0,
                  queue = []\<rparr>,
      breaker = \<lparr>opts = test_opts, buckets = Map.empty\<rparr>,
      requestTimeoutMs = 500, keyFn = url, listeners = (\<lambda>e. None), emitted = []\<rparr>"

definition failing_handler :: "event \<Rightarrow> error option" where
  "failing_handler e =
     (case e of
        RequestSuccess key requestId req st durationMs \<Rightarrow> Some (Error ''handler failed'')
      | _ \<Rightarrow> None)"

definition watched_client :: ResilientHttpClient where
  "watched_client = on quiet_client failing_handler"
section \<open>Properties of the rolling window\<close>

lemma failures_take:
  "n \<le> length xs \<Longrightarrow> fold (\<lambda>i s. s + xs ! i) [0..<n] (0::nat) = sum_list (take n xs)"
  by (induction n) (simp_all add: take_Suc_conv_app_nth)

lemma holds_init: "0 < n \<Longrightarrow> holds (RollingWindow_init n) []"
  by (simp add: holds_def RollingWindow_init_def)

lemma lastn_snoc: "n \<le> length vs \<Longrightarrow> 0 < n \<Longrightarrow> lastn n (vs @ [v]) = tl (lastn n vs) @ [v]"
  by (simp add: lastn_def drop_Suc Suc_diff_le tl_drop)

lemma holds_push_unfilled:
  assumes "holds w vs" and nf: "\<not> filled w"
  shows "holds (push w v) (vs @ [v])"
proof -
  from assms have len: "length vs < size_rw w" and i: "idx w = length vs"
    and b: "buf w = vs @ replicate (size_rw w - length vs) 0"
    by (auto simp: holds_def)
  from len obtain k where k: "size_rw w - length vs = Suc k"
    by (metis Suc_diff_Suc)
  have upd: "(buf w)[idx w := v] = vs @ v # replicate k 0"
    using b i k by simp
  show ?thesis
  proof (cases "k = 0")
    case True
    then have "Suc (length vs) = size_rw w" using k len by simp
    then show ?thesis using upd True
      by (simp add: holds_def push_def Let_def lastn_def i)
  next
    case False
    then have lt: "Suc (length vs) < size_rw w" using k by simp
    have "size_rw w - Suc (length vs) = k" using k by simp
    then show ?thesis using upd lt nf
      by (simp add: holds_def push_def Let_def i)
  qed
qed

lemma holds_push_filled:
  assumes "holds w vs" and f: "filled w"
  shows "holds (push w v) (vs @ [v])"
proof -
  let ?n = "size_rw w" and ?i = "idx w"
  from assms have pos: "0 < ?n" and l: "length (buf w) = ?n" and ge: "?n \<le> length vs"
    and i: "?i = length vs mod ?n"
    and rot: "drop ?i (buf w) @ take ?i (buf w) = lastn ?n vs"
    by (auto simp: holds_def)
  have ilt: "?i < ?n" using i pos by simp
  have "drop ?i (buf w) = buf w ! ?i # drop (Suc ?i) (buf w)"
    using ilt l by (simp add: Cons_nth_drop_Suc)
  with rot have tl: "tl (lastn ?n vs) = drop (Suc ?i) (buf w) @ take ?i (buf w)"
    by (metis append_Cons list.sel(3))
  have goal: "lastn ?n (vs @ [v]) = drop (Suc ?i) (buf w) @ take ?i (buf w) @ [v]"
    using lastn_snoc [OF ge pos] tl by simp
  show ?thesis
  proof (cases "Suc ?i = ?n")
    case True
    then have d: "drop (Suc ?i) (buf w) = []" using l by simp
    have "(buf w)[?i := v] = take ?i (buf w) @ [v]"
      using ilt l d by (simp add: upd_conv_take_nth_drop)
    then show ?thesis using True goal d pos l ge i
      by (simp add: holds_def push_def Let_def mod_Suc)
  next
    case False
    then have lt: "Suc ?i < ?n" using ilt by simp
    have "take (Suc ?i) ((buf w)[?i := v]) = take ?i (buf w) @ [v]"
      using ilt l by (simp add: take_Suc_conv_app_nth)
    then show ?thesis using False lt goal pos l ge i f
      by (simp add: holds_def push_def Let_def mod_Suc)
  qed
qed

lemma holds_push: "holds w vs \<Longrightarrow> holds (push w v) (vs @ [v])"
  by (cases "filled w") (simp_all add: holds_push_filled holds_push_unfilled)

lemma holds_pushes: "holds w us \<Longrightarrow> holds (foldl push w vs) (us @ vs)"
proof (induction vs rule: rev_induct)
  case Nil
  then show ?case by simp
next
  case (snoc v vs)
  then have "holds (push (foldl push w vs) v) ((us @ vs) @ [v])"
    by (intro holds_push) simp
  then show ?case by simp
qed

lemma holds_reset: "holds w vs \<Longrightarrow> reset w = RollingWindow_init (int (size_rw w))"
  by (simp add: holds_def reset_def RollingWindow_init_def map_replicate_const)

lemma holds_count: "holds w vs \<Longrightarrow> count w = min (size_rw w) (length vs)"
  by (auto simp: holds_def count_def)

lemma holds_failures:
  assumes "holds w vs"
  shows "failures w = sum_list (lastn (min (size_rw w) (length vs)) vs)"
proof (cases "filled w")
  case True
  with assms have l: "length (buf w) = size_rw w" and ge: "size_rw w \<le> length vs"
    and rot: "drop (idx w) (buf w) @ take (idx w) (buf w) = lastn (size_rw w) vs"
    by (auto simp: holds_def)
  have "failures w = sum_list (buf w)"
    using True l by (simp add: failures_def count_def failures_take)
  also have "\<dots> = sum_list (take (idx w) (buf w) @ drop (idx w) (buf w))" by simp
  also have "\<dots> = sum_list (drop (idx w) (buf w) @ take (idx w) (buf w))"
    by (simp only: sum_list_append add.commute)
  finally show ?thesis using rot ge by (simp add: min_def)
next
  case False
  with assms have l: "length (buf w) = size_rw w" and lt: "length vs < size_rw w"
    and i: "idx w = length vs"
    and b: "buf w = vs @ replicate (size_rw w - length vs) 0"
    by (auto simp: holds_def)
  have "failures w = sum_list (take (length vs) (buf w))"
    using False l lt i by (simp add: failures_def count_def failures_take)
  also have "\<dots> = sum_list vs" by (subst b) simp
  finally show ?thesis using lt by (simp add: lastn_def min_def)
qed

lemma sum_list_le_length: "set xs \<subseteq> {0, 1::nat} \<Longrightarrow> sum_list xs \<le> length xs"
  by (induction xs) auto

lemma holds_failures_le:
  assumes "holds w vs" and "set vs \<subseteq> {0, 1}"
  shows "failures w \<le> count w"
proof -
  let ?m = "min (size_rw w) (length vs)"
  have "set (lastn ?m vs) \<subseteq> {0, 1}"
    using assms(2) set_drop_subset [of "length vs - ?m" vs] unfolding lastn_def by blast
  then have "sum_list (lastn ?m vs) \<le> length (lastn ?m vs)" by (rule sum_list_le_length)
  also have "\<dots> = ?m" by (simp add: lastn_def)
  finally show ?thesis using assms(1) by (simp add: holds_failures holds_count)
qed


lemma size_rw_push: "size_rw (push w v) = size_rw w"
  by (simp add: push_def Let_def)

lemma size_rw_pushes: "size_rw (foldl push w vs) = size_rw w"
  by (induction vs arbitrary: w) (simp_all add: size_rw_push)

lemma new_RollingWindow_holds:
  assumes "new_RollingWindow n = Some w"
  shows "holds w []" and "size_rw w = nat n" and "0 < n" and "w = RollingWindow_init n"
  using assms by (auto simp: new_RollingWindow_def holds_def RollingWindow_init_def split: if_splits)

lemma reset_pushes:
  assumes "new_RollingWindow n = Some w"
  shows "reset (foldl push w us) = w"
proof -
  have "holds (foldl push w us) ([] @ us)"
    using new_RollingWindow_holds(1) [OF assms] by (rule holds_pushes)
  then have "reset (foldl push w us) = RollingWindow_init (int (size_rw (foldl push w us)))"
    by (rule holds_reset)
  then show ?thesis
    using new_RollingWindow_holds(2-4) [OF assms] by (simp add: size_rw_pushes)
qed

lemma failureRate_range:
  assumes "failures w \<le> count w"
  shows "0 \<le> failureRate w \<and> failureRate w \<le> 1"
proof (cases "count w = 0")
  case True
  then show ?thesis by (simp add: failureRate_def)
next
  case False
  have "(of_nat (failures w) :: rat) \<le> of_nat (count w)" using assms by simp
  then show ?thesis using False by (simp add: failureRate_def Let_def)
qed

text \<open>
  Claim C9. Take a window of capacity \<open>n \<ge> 1\<close>, as built by the constructor or as left
  by \<open>reset\<close> after any pushes, and push the outcomes \<open>vs\<close> (each \<open>0\<close> or \<open>1\<close>) into it.
  Then \<open>count()\<close> is \<open>min(n, |vs|)\<close>, \<open>failures()\<close> is the sum of the last \<open>min(n, |vs|)\<close>
  pushed outcomes and is at most \<open>count()\<close>, and \<open>failureRate()\<close> is \<open>failures()/count()\<close>
  when \<open>count() > 0\<close> and \<open>0\<close> otherwise, hence lies in \<open>[0, 1]\<close>.
\<close>

theorem window_arithmetic:
  assumes "new_RollingWindow n = Some w1"
    and "w0 = w1 \<or> w0 = reset (foldl push w1 us)"
    and "set vs \<subseteq> {0, 1}"
    and "w = foldl push w0 vs"
  shows "count w = min (nat n) (length vs)
       \<and> failures w = sum_list (lastn (min (nat n) (length vs)) vs)
       \<and> failures w \<le> count w
       \<and> failureRate w = (if count w = 0 then 0 else of_nat (failures w) / of_nat (count w))
       \<and> 0 \<le> failureRate w \<and> failureRate w \<le> 1"
proof -
  have w0: "w0 = w1" using assms(1,2) by (auto simp: reset_pushes)
  have "holds w ([] @ vs)"
    unfolding assms(4) w0 using new_RollingWindow_holds(1) [OF assms(1)] by (rule holds_pushes)
  then have h: "holds w vs" by simp
  have sz: "size_rw w = nat n"
    by (simp add: assms(4) w0 size_rw_pushes new_RollingWindow_holds(2) [OF assms(1)])
  have le: "failures w \<le> count w" using h assms(3) by (rule holds_failures_le)
  show ?thesis
    using holds_count [OF h] holds_failures [OF h] le failureRate_range [OF le]
    by (simp add: sz failureRate_def Let_def)
qed

theorem window_arithmetic_witness:
  "new_RollingWindow 3 = Some (RollingWindow_init 3)
   \<and> set [1, 0, 1, 1] \<subseteq> {0, 1::nat}
   \<and> count (foldl push (reset (foldl push (RollingWindow_init 3) [1, 1, 0, 1])) [1, 0, 1, 1]) = 3
   \<and> failures (foldl push (reset (foldl push (RollingWindow_init 3) [1, 1, 0, 1])) [1, 0, 1, 1]) = 2
   \<and> failureRate (foldl push (reset (foldl push (RollingWindow_init 3) [1, 1, 0, 1])) [1, 0, 1, 1]) = 2 / 3"
proof -
  have a: "new_RollingWindow 3 = Some (RollingWindow_init 3)"
    by (simp add: new_RollingWindow_def)
  have b: "set [1, 0, 1, 1] \<subseteq> {0, 1::nat}" by simp
  show ?thesis
    using a b window_arithmetic [OF a disjI2 [OF refl] b refl, of "[1, 1, 0, 1]"]
    by (simp add: lastn_def)
qed

section \<open>Properties of the circuit breaker\<close>

lemma bucket_Some: "buckets br key = Some b \<Longrightarrow> bucket br key = (b, br)"
  by (simp add: bucket_def)

lemma opts_bucket: "opts (snd (bucket br key)) = opts br"
  by (simp add: bucket_def Let_def split: option.splits)

lemma buckets_bucket:
  "buckets (snd (bucket br key)) = (buckets br)(key \<mapsto> fst (bucket br key))"
  by (auto simp: bucket_def Let_def fun_upd_idem split: option.splits)

lemma allow_conv:
  "allow br key nowMs =
     (fst (allow_bucket (opts br) (fst (bucket br key)) nowMs),
      br\<lparr>buckets := (buckets br)(key \<mapsto> snd (allow_bucket (opts br) (fst (bucket br key)) nowMs))\<rparr>)"
  by (simp add: allow_def bucket_def Let_def split: option.splits prod.splits)

lemma onSuccess_conv:
  "onSuccess br key =
     (fst (onSuccess_bucket (opts br) (fst (bucket br key))),
      br\<lparr>buckets := (buckets br)(key \<mapsto> snd (onSuccess_bucket (opts br) (fst (bucket br key))))\<rparr>)"
  by (simp add: onSuccess_def bucket_def Let_def split: option.splits prod.splits)

lemma onFailure_conv:
  "onFailure br key nowMs =
     (fst (onFailure_bucket (opts br) (fst (bucket br key)) nowMs),
      br\<lparr>buckets := (buckets br)(key \<mapsto> snd (onFailure_bucket (opts br) (fst (bucket br key)) nowMs))\<rparr>)"
  by (simp add: onFailure_def bucket_def Let_def split: option.splits prod.splits)

lemma upd_same: "buckets br key = Some b \<Longrightarrow> br\<lparr>buckets := (buckets br)(key \<mapsto> b)\<rparr> = br"
  by (simp add: fun_upd_idem)

lemma count_reset: "count (reset w) = 0"
  by (simp add: reset_def count_def)

lemma failures_reset: "failures (reset w) = 0"
  by (simp add: reset_def count_def failures_def)

lemma failureRate_reset: "failureRate (reset w) = 0"
  by (simp add: failureRate_def count_reset)

text \<open>
  Claim C7. For a key whose bucket is \<open>HALF_OPEN\<close>: \<open>onFailure(key, now)\<close> decrements
  \<open>halfOpenInFlight\<close> (not below 0), increments \<open>halfOpenFailures\<close> and at once moves the
  bucket to \<open>OPEN\<close> with \<open>openedAtMs = now\<close>, which resets the three half-open counters
  and leaves the window as it was; it reports \<open>changed\<close> from \<open>HALF_OPEN\<close> to \<open>OPEN\<close>.
  \<open>onSuccess(key)\<close> decrements \<open>halfOpenInFlight\<close> (not below 0) and increments
  \<open>halfOpenSuccesses\<close>; exactly when the incremented count reaches \<open>halfOpenProbeCount\<close>
  it moves the bucket to \<open>CLOSED\<close>, resetting the counters and the window, and reports
  \<open>changed\<close> from \<open>HALF_OPEN\<close> to \<open>CLOSED\<close>; otherwise it reports no change. The window
  of the closed bucket has its write index at 0, is not filled and holds only zeros, so
  that its count, its failures and its failure rate are 0; its size is unchanged.
\<close>

theorem half_open_results:
  assumes "buckets br key = Some b" and "state b = HALF_OPEN"
  shows "onFailure br key nowMs =
           (\<lparr>changed = True, from_state = Some HALF_OPEN, to_state = Some OPEN\<rparr>,
            br\<lparr>buckets := (buckets br)(key \<mapsto>
               toOpen (b\<lparr>halfOpenInFlight := max 0 (halfOpenInFlight b - 1),
                         halfOpenFailures := halfOpenFailures b + 1\<rparr>) nowMs)\<rparr>)
       \<and> toOpen (b\<lparr>halfOpenInFlight := max 0 (halfOpenInFlight b - 1),
                    halfOpenFailures := halfOpenFailures b + 1\<rparr>) nowMs =
           b\<lparr>state := OPEN, openedAtMs := Some nowMs, halfOpenInFlight := 0,
             halfOpenSuccesses := 0, halfOpenFailures := 0\<rparr>
       \<and> window_of (snd (onFailure br key nowMs)) key = window b
       \<and> onSuccess br key =
           (if of_int (halfOpenSuccesses b + 1) \<ge> halfOpenProbeCount (opts br)
            then (\<lparr>changed = True, from_state = Some HALF_OPEN, to_state = Some CLOSED\<rparr>,
                  br\<lparr>buckets := (buckets br)(key \<mapsto>
                     toClosed (b\<lparr>halfOpenInFlight := max 0 (halfOpenInFlight b - 1),
                                 halfOpenSuccesses := halfOpenSuccesses b + 1\<rparr>))\<rparr>)
            else (\<lparr>changed = False, from_state = None, to_state = None\<rparr>,
                  br\<lparr>buckets := (buckets br)(key \<mapsto>
                     b\<lparr>halfOpenInFlight := max 0 (halfOpenInFlight b - 1),
                       halfOpenSuccesses := halfOpenSuccesses b + 1\<rparr>)\<rparr>))
       \<and> toClosed (b\<lparr>halfOpenInFlight := max 0 (halfOpenInFlight b - 1),
                     halfOpenSuccesses := halfOpenSuccesses b + 1\<rparr>) =
           b\<lparr>state := CLOSED, openedAtMs := None,
             window := (window b)\<lparr>idx := 0, filled := False,
                                  buf := replicate (length (buf (window b))) 0\<rparr>,
             halfOpenInFlight := 0, halfOpenSuccesses := 0, halfOpenFailures := 0\<rparr>
       \<and> (of_int (halfOpenSuccesses b + 1) \<ge> halfOpenProbeCount (opts br) \<longrightarrow>
            state_of (snd (onSuccess br key)) key = CLOSED
          \<and> window_of (snd (onSuccess br key)) key =
              (window b)\<lparr>idx := 0, filled := False,
                          buf := replicate (length (buf (window b))) 0\<rparr>
          \<and> count (window_of (snd (onSuccess br key)) key) = 0
          \<and> failures (window_of (snd (onSuccess br key)) key) = 0
          \<and> failureRate (window_of (snd (onSuccess br key)) key) = 0
          \<and> size_rw (window_of (snd (onSuccess br key)) key) = size_rw (window b))
       \<and> (of_int (halfOpenSuccesses b + 1) < halfOpenProbeCount (opts br) \<longrightarrow>
            state_of (snd (onSuccess br key)) key = HALF_OPEN
          \<and> window_of (snd (onSuccess br key)) key = window b)"
proof -
  let ?bf = "b\<lparr>halfOpenInFlight := max 0 (halfOpenInFlight b - 1),
                halfOpenFailures := halfOpenFailures b + 1\<rparr>"
  let ?bs = "b\<lparr>halfOpenInFlight := max 0 (halfOpenInFlight b - 1),
                halfOpenSuccesses := halfOpenSuccesses b + 1\<rparr>"
  have r: "reset (window b) =
      (window b)\<lparr>idx := 0, filled := False, buf := replicate (length (buf (window b))) 0\<rparr>"
    by (simp add: reset_def map_replicate_const)
  have f: "onFailure br key nowMs =
      (\<lparr>changed = True, from_state = Some HALF_OPEN, to_state = Some OPEN\<rparr>,
       br\<lparr>buckets := (buckets br)(key \<mapsto> toOpen ?bf nowMs)\<rparr>)"
    using assms by (simp add: onFailure_conv bucket_Some onFailure_bucket_def Let_def)
  have s: "onSuccess br key =
      (if of_int (halfOpenSuccesses b + 1) \<ge> halfOpenProbeCount (opts br)
       then (\<lparr>changed = True, from_state = Some HALF_OPEN, to_state = Some CLOSED\<rparr>,
             br\<lparr>buckets := (buckets br)(key \<mapsto> toClosed ?bs)\<rparr>)
       else (\<lparr>changed = False, from_state = None, to_state = None\<rparr>,
             br\<lparr>buckets := (buckets br)(key \<mapsto> ?bs)\<rparr>))"
    using assms by (simp add: onSuccess_conv bucket_Some onSuccess_bucket_def Let_def)
  have o: "toOpen ?bf nowMs =
      b\<lparr>state := OPEN, openedAtMs := Some nowMs, halfOpenInFlight := 0,
        halfOpenSuccesses := 0, halfOpenFailures := 0\<rparr>"
    by (simp add: toOpen_def)
  have c: "toClosed ?bs =
      b\<lparr>state := CLOSED, openedAtMs := None,
        window := (window b)\<lparr>idx := 0, filled := False,
                             buf := replicate (length (buf (window b))) 0\<rparr>,
        halfOpenInFlight := 0, halfOpenSuccesses := 0, halfOpenFailures := 0\<rparr>"
    by (simp add: toClosed_def r)
  have wc: "window (toClosed ?bs) = reset (window b)" by (simp add: toClosed_def)
  have w: "\<And>b'. window_of (br\<lparr>buckets := (buckets br)(key \<mapsto> b')\<rparr>) key = window b'"
    and st: "\<And>b'. state_of (br\<lparr>buckets := (buckets br)(key \<mapsto> b')\<rparr>) key = state b'"
    by (simp_all add: window_of_def state_of_def bucket_def)
  have wf: "window_of (snd (onFailure br key nowMs)) key = window b"
    by (simp add: f w toOpen_def)
  have closed: "of_int (halfOpenSuccesses b + 1) \<ge> halfOpenProbeCount (opts br) \<Longrightarrow>
      state_of (snd (onSuccess br key)) key = CLOSED
      \<and> window_of (snd (onSuccess br key)) key =
          (window b)\<lparr>idx := 0, filled := False, buf := replicate (length (buf (window b))) 0\<rparr>
      \<and> count (window_of (snd (onSuccess br key)) key) = 0
      \<and> failures (window_of (snd (onSuccess br key)) key) = 0
      \<and> failureRate (window_of (snd (onSuccess br key)) key) = 0
      \<and> size_rw (window_of (snd (onSuccess br key)) key) = size_rw (window b)"
  proof -
    assume "of_int (halfOpenSuccesses b + 1) \<ge> halfOpenProbeCount (opts br)"
    then have e: "snd (onSuccess br key) = br\<lparr>buckets := (buckets br)(key \<mapsto> toClosed ?bs)\<rparr>"
      by (simp add: s)
    have 1: "state_of (snd (onSuccess br key)) key = CLOSED"
      unfolding e st by (simp add: toClosed_def)
    have 2: "window_of (snd (onSuccess br key)) key = reset (window b)"
      unfolding e w by (rule wc)
    have 3: "size_rw (reset (window b)) = size_rw (window b)" by (simp add: reset_def)
    show ?thesis
      unfolding 2 using 1 r 3 count_reset [of "window b"] failures_reset [of "window b"]
        failureRate_reset [of "window b"]
      by (simp only: simp_thms)
  qed
  have half: "of_int (halfOpenSuccesses b + 1) < halfOpenProbeCount (opts br) \<Longrightarrow>
      state_of (snd (onSuccess br key)) key = HALF_OPEN
      \<and> window_of (snd (onSuccess br key)) key = window b"
    using assms(2) by (simp add: s w st)
  show ?thesis using f o wf s c closed half by blast
qed

lemma bucket_inv_fresh:
  "0 < halfOpenProbeCount os \<Longrightarrow> buckets br key = None \<Longrightarrow> bucket_inv os (fst (bucket br key))"
  by (simp add: bucket_def bucket_inv_def Let_def)

lemma bucket_inv_allow:
  assumes "halfOpenProbeCount os \<in> \<int>" and "0 < halfOpenProbeCount os" and "bucket_inv os b"
  shows "bucket_inv os (snd (allow_bucket os b nowMs))"
proof -
  from assms(1) obtain n where n: "halfOpenProbeCount os = of_int n" by (rule Ints_cases)
  have step: "\<And>i::int. \<not> rat_of_int n \<le> of_int i \<Longrightarrow> rat_of_int i + 1 \<le> of_int n"
  proof -
    fix i :: int assume "\<not> rat_of_int n \<le> of_int i"
    then have "i + 1 \<le> n" by simp
    then have "rat_of_int (i + 1) \<le> of_int n" by (simp only: of_int_le_iff)
    then show "rat_of_int i + 1 \<le> of_int n" by simp
  qed
  have one: "(1::rat) \<le> of_int n" using assms(2) n by simp
  show ?thesis using assms(2,3) step [of "halfOpenInFlight b"] one
    by (auto simp: n bucket_inv_def allow_bucket_def allow_tail_def toHalfOpen_def Let_def)
qed

lemma bucket_inv_onSuccess:
  assumes "0 < halfOpenProbeCount os" and "bucket_inv os b"
  shows "bucket_inv os (snd (onSuccess_bucket os b))"
proof -
  have "max 0 (halfOpenInFlight b - 1) \<le> halfOpenInFlight b"
    using assms(2) by (simp add: bucket_inv_def)
  then have "rat_of_int (max 0 (halfOpenInFlight b - 1)) \<le> of_int (halfOpenInFlight b)"
    by (simp only: of_int_le_iff)
  moreover have "rat_of_int (halfOpenInFlight b) \<le> halfOpenProbeCount os"
    using assms(2) by (simp add: bucket_inv_def)
  ultimately have "rat_of_int (max 0 (halfOpenInFlight b - 1)) \<le> halfOpenProbeCount os"
    by (rule order_trans)
  then show ?thesis using assms
    by (auto simp: bucket_inv_def onSuccess_bucket_def toClosed_def Let_def)
qed

lemma bucket_inv_onFailure:
  "0 < halfOpenProbeCount os \<Longrightarrow> bucket_inv os b \<Longrightarrow> bucket_inv os (snd (onFailure_bucket os b nowMs))"
  by (auto simp: bucket_inv_def onFailure_bucket_def toOpen_def Let_def)

lemma opts_call: "opts (call br c) = opts br"
  by (cases c) (simp_all add: allow_conv onSuccess_conv onFailure_conv)

lemma opts_calls: "opts (foldl call br cs) = opts br"
  by (induction cs arbitrary: br) (simp_all add: opts_call)

lemma bucket_inv_bucket:
  assumes "0 < halfOpenProbeCount (opts br)"
    and "\<forall>k b. buckets br k = Some b \<longrightarrow> bucket_inv (opts br) b"
  shows "bucket_inv (opts br) (fst (bucket br key))"
proof (cases "buckets br key")
  case None
  then show ?thesis using assms(1) by (rule bucket_inv_fresh [rotated])
next
  case (Some b)
  then show ?thesis using assms(2) by (simp add: bucket_Some)
qed

lemma bucket_inv_call:
  assumes z: "halfOpenProbeCount (opts br) \<in> \<int>"
    and p: "0 < halfOpenProbeCount (opts br)"
    and inv: "\<forall>k b. buckets br k = Some b \<longrightarrow> bucket_inv (opts br) b"
  shows "\<forall>k b. buckets (call br c) k = Some b \<longrightarrow> bucket_inv (opts br) b"
proof (cases c)
  case (Allow key nowMs)
  have "bucket_inv (opts br) (snd (allow_bucket (opts br) (fst (bucket br key)) nowMs))"
    using z p bucket_inv_bucket [OF p inv] by (rule bucket_inv_allow)
  then show ?thesis using inv Allow by (simp add: allow_conv)
next
  case (OnSuccess key)
  have "bucket_inv (opts br) (snd (onSuccess_bucket (opts br) (fst (bucket br key))))"
    using p bucket_inv_bucket [OF p inv] by (rule bucket_inv_onSuccess)
  then show ?thesis using inv OnSuccess by (simp add: onSuccess_conv)
next
  case (OnFailure key nowMs)
  have "bucket_inv (opts br) (snd (onFailure_bucket (opts br) (fst (bucket br key)) nowMs))"
    using p bucket_inv_bucket [OF p inv] by (rule bucket_inv_onFailure)
  then show ?thesis using inv OnFailure by (simp add: onFailure_conv)
qed

lemma bucket_inv_calls:
  assumes "halfOpenProbeCount (opts br) \<in> \<int>"
    and "0 < halfOpenProbeCount (opts br)"
    and "\<forall>k b. buckets br k = Some b \<longrightarrow> bucket_inv (opts br) b"
  shows "\<forall>k b. buckets (foldl call br cs) k = Some b \<longrightarrow> bucket_inv (opts br) b"
  using assms
proof (induction cs arbitrary: br)
  case Nil
  then show ?case by simp
next
  case (Cons c cs)
  have "\<forall>k b. buckets (foldl call (call br c) cs) k = Some b \<longrightarrow> bucket_inv (opts (call br c)) b"
    using Cons.prems bucket_inv_call [of br c] by (intro Cons.IH) (simp_all add: opts_call)
  then show ?case by (simp add: opts_call)
qed

lemma new_CircuitBreaker_valid:
  assumes "new_CircuitBreaker os = Some br"
  shows "opts br = os" and "buckets br = Map.empty" and "0 < windowSize os"
    and "0 \<le> minRequests os" and "0 \<le> failureThreshold os" and "failureThreshold os \<le> 1"
    and "0 < cooldownMs os" and "0 < halfOpenProbeCount os"
  using assms by (auto simp: new_CircuitBreaker_def split: if_splits)

lemma new_CircuitBreaker_window:
  "new_CircuitBreaker os = Some br \<Longrightarrow>
   new_RollingWindow (windowSize (opts br)) = Some (RollingWindow_init (windowSize (opts br)))"
  by (auto simp: new_CircuitBreaker_def new_RollingWindow_def split: if_splits)

text \<open>
  The branches of \<open>allow(key, now)\<close>, for any probe count: in \<open>OPEN\<close> with
  \<open>now - openedAt < cooldownMs\<close> it denies with \<open>retryAfter = cooldownMs - (now - openedAt)\<close>
  and changes nothing; in \<open>OPEN\<close> with \<open>now - openedAt \<ge> cooldownMs\<close> it moves the bucket
  to \<open>HALF_OPEN\<close> (counters reset, \<open>openedAt\<close> cleared) and goes on to probe admission,
  which for a positive probe count admits the first probe; in \<open>HALF_OPEN\<close> it denies
  with \<open>retryAfter = 0\<close> when \<open>halfOpenInFlight \<ge> halfOpenProbeCount\<close> and otherwise
  increments \<open>halfOpenInFlight\<close> and allows; in \<open>CLOSED\<close> it allows. When the probe count
  is a whole number, every bucket reached from the constructor has
  \<open>0 \<le> halfOpenInFlight \<le> halfOpenProbeCount\<close>, and its \<open>openedAt\<close> is set exactly when it
  is \<open>OPEN\<close>.
\<close>

lemma allow_branches:
  "(buckets br key = Some b \<and> state b = OPEN \<and> openedAtMs b = Some t
      \<and> nowMs - t < cooldownMs (opts br) \<longrightarrow>
    allow br key nowMs =
      (\<lparr>allowed = False, state_d = OPEN,
        retryAfterMs = Some (cooldownMs (opts br) - (nowMs - t))\<rparr>, br))
   \<and> (buckets br key = Some b \<and> state b = OPEN \<and> openedAtMs b = Some t
      \<and> nowMs - t \<ge> cooldownMs (opts br) \<longrightarrow>
    allow br key nowMs =
      allow (br\<lparr>buckets := (buckets br)(key \<mapsto>
               b\<lparr>state := HALF_OPEN, openedAtMs := None, halfOpenInFlight := 0,
                 halfOpenSuccesses := 0, halfOpenFailures := 0\<rparr>)\<rparr>) key nowMs
    \<and> (0 < halfOpenProbeCount (opts br) \<longrightarrow>
       allow br key nowMs =
         (\<lparr>allowed = True, state_d = HALF_OPEN, retryAfterMs = None\<rparr>,
          br\<lparr>buckets := (buckets br)(key \<mapsto>
               b\<lparr>state := HALF_OPEN, openedAtMs := None, halfOpenInFlight := 1,
                 halfOpenSuccesses := 0, halfOpenFailures := 0\<rparr>)\<rparr>)))
   \<and> (buckets br key = Some b \<and> state b = HALF_OPEN
      \<and> of_int (halfOpenInFlight b) \<ge> halfOpenProbeCount (opts br) \<longrightarrow>
    allow br key nowMs =
      (\<lparr>allowed = False, state_d = HALF_OPEN, retryAfterMs = Some 0\<rparr>, br))
   \<and> (buckets br key = Some b \<and> state b = HALF_OPEN
      \<and> of_int (halfOpenInFlight b) < halfOpenProbeCount (opts br) \<longrightarrow>
    allow br key nowMs =
      (\<lparr>allowed = True, state_d = HALF_OPEN, retryAfterMs = None\<rparr>,
       br\<lparr>buckets := (buckets br)(key \<mapsto>
            b\<lparr>halfOpenInFlight := halfOpenInFlight b + 1\<rparr>)\<rparr>))
   \<and> (state (fst (bucket br key)) = CLOSED \<longrightarrow>
    allow br key nowMs =
      (\<lparr>allowed = True, state_d = CLOSED, retryAfterMs = None\<rparr>, snd (bucket br key)))
   \<and> (new_CircuitBreaker os = Some br0 \<and> halfOpenProbeCount os \<in> \<int>
      \<and> buckets (foldl call br0 cs) k = Some b' \<longrightarrow>
    0 \<le> halfOpenInFlight b' \<and> of_int (halfOpenInFlight b') \<le> halfOpenProbeCount os
    \<and> (state b' = OPEN) = (openedAtMs b' \<noteq> None))"
proof (intro conjI impI; (elim conjE)?)
  assume "buckets br key = Some b" "state b = OPEN" "openedAtMs b = Some t"
    "nowMs - t < cooldownMs (opts br)"
  then show "allow br key nowMs =
      (\<lparr>allowed = False, state_d = OPEN,
        retryAfterMs = Some (cooldownMs (opts br) - (nowMs - t))\<rparr>, br)"
    by (simp add: allow_conv bucket_Some allow_bucket_def Let_def upd_same)
next
  assume "buckets br key = Some b" "state b = OPEN" "openedAtMs b = Some t"
    "nowMs - t \<ge> cooldownMs (opts br)"
  then show "allow br key nowMs =
      allow (br\<lparr>buckets := (buckets br)(key \<mapsto>
               b\<lparr>state := HALF_OPEN, openedAtMs := None, halfOpenInFlight := 0,
                 halfOpenSuccesses := 0, halfOpenFailures := 0\<rparr>)\<rparr>) key nowMs"
    by (simp add: allow_conv bucket_Some bucket_def allow_bucket_def allow_tail_def
        toHalfOpen_def Let_def)
next
  assume "buckets br key = Some b" "state b = OPEN" "openedAtMs b = Some t"
    "nowMs - t \<ge> cooldownMs (opts br)" "0 < halfOpenProbeCount (opts br)"
  then show "allow br key nowMs =
      (\<lparr>allowed = True, state_d = HALF_OPEN, retryAfterMs = None\<rparr>,
       br\<lparr>buckets := (buckets br)(key \<mapsto>
            b\<lparr>state := HALF_OPEN, openedAtMs := None, halfOpenInFlight := 1,
              halfOpenSuccesses := 0, halfOpenFailures := 0\<rparr>)\<rparr>)"
    by (cases b) (simp add: allow_conv bucket_Some allow_bucket_def allow_tail_def
        toHalfOpen_def Let_def)
next
  assume "buckets br key = Some b" "state b = HALF_OPEN"
    "of_int (halfOpenInFlight b) \<ge> halfOpenProbeCount (opts br)"
  then show "allow br key nowMs =
      (\<lparr>allowed = False, state_d = HALF_OPEN, retryAfterMs = Some 0\<rparr>, br)"
    by (simp add: allow_conv bucket_Some allow_bucket_def allow_tail_def upd_same)
next
  assume "buckets br key = Some b" "state b = HALF_OPEN"
    "of_int (halfOpenInFlight b) < halfOpenProbeCount (opts br)"
  then show "allow br key nowMs =
      (\<lparr>allowed = True, state_d = HALF_OPEN, retryAfterMs = None\<rparr>,
       br\<lparr>buckets := (buckets br)(key \<mapsto> b\<lparr>halfOpenInFlight := halfOpenInFlight b + 1\<rparr>)\<rparr>)"
    by (simp add: allow_conv bucket_Some allow_bucket_def allow_tail_def)
next
  assume "state (fst (bucket br key)) = CLOSED"
  then show "allow br key nowMs =
      (\<lparr>allowed = True, state_d = CLOSED, retryAfterMs = None\<rparr>, snd (bucket br key))"
    by (simp add: allow_conv allow_bucket_def allow_tail_def)
      (simp add: bucket_def Let_def fun_upd_idem split: option.splits)
next
  assume n: "new_CircuitBreaker os = Some br0" and z: "halfOpenProbeCount os \<in> \<int>"
    and b: "buckets (foldl call br0 cs) k = Some b'"
  have "\<forall>k b. buckets (foldl call br0 cs) k = Some b \<longrightarrow> bucket_inv (opts br0) b"
    using new_CircuitBreaker_valid [OF n] z by (intro bucket_inv_calls) simp_all
  then have inv: "bucket_inv os b'"
    using b new_CircuitBreaker_valid(1) [OF n] by auto
  from inv show "0 \<le> halfOpenInFlight b'" by (simp add: bucket_inv_def)
  from inv show "of_int (halfOpenInFlight b') \<le> halfOpenProbeCount os"
    by (simp add: bucket_inv_def)
  from inv show "(state b' = OPEN) = (openedAtMs b' \<noteq> None)" by (simp add: bucket_inv_def)
qed

text \<open>
  Claim C6 ends with the bound that \<open>halfOpenInFlight\<close> never exceeds
  \<open>halfOpenProbeCount\<close>, for every sequence of operations. The constructor accepts every
  finite positive probe count, and \<open>allow\<close> admits a probe whenever
  \<open>halfOpenInFlight < halfOpenProbeCount\<close>. With the count 1.5 the breaker below is opened
  by one failure; after the cooldown \<open>allow\<close> admits a first probe, and then a second one,
  since \<open>1 \<ge> 1.5\<close> is false: \<open>halfOpenInFlight\<close> is 2, above the probe count.
\<close>

theorem half_open_bound_broken:
  "new_CircuitBreaker frac_opts = Some \<lparr>opts = frac_opts, buckets = Map.empty\<rparr>
   \<and> halfOpenProbeCount frac_opts = 3 / 2
   \<and> state_of (foldl call \<lparr>opts = frac_opts, buckets = Map.empty\<rparr>
         [OnFailure ''svc'' 1000]) ''svc'' = OPEN
   \<and> fst (allow (foldl call \<lparr>opts = frac_opts, buckets = Map.empty\<rparr>
         [OnFailure ''svc'' 1000]) ''svc'' 1200)
       = \<lparr>allowed = True, state_d = HALF_OPEN, retryAfterMs = None\<rparr>
   \<and> fst (allow (foldl call \<lparr>opts = frac_opts, buckets = Map.empty\<rparr>
         [OnFailure ''svc'' 1000, Allow ''svc'' 1200]) ''svc'' 1201)
       = \<lparr>allowed = True, state_d = HALF_OPEN, retryAfterMs = None\<rparr>
   \<and> map_option halfOpenInFlight
        (buckets (foldl call \<lparr>opts = frac_opts, buckets = Map.empty\<rparr>
           [OnFailure ''svc'' 1000, Allow ''svc'' 1200, Allow ''svc'' 1201]) ''svc'') = Some 2
   \<and> map_option (\<lambda>b. of_int (halfOpenInFlight b) \<le> halfOpenProbeCount frac_opts)
        (buckets (foldl call \<lparr>opts = frac_opts, buckets = Map.empty\<rparr>
           [OnFailure ''svc'' 1000, Allow ''svc'' 1200, Allow ''svc'' 1201]) ''svc'')
       = Some False"
proof (intro conjI)
  show "new_CircuitBreaker frac_opts = Some \<lparr>opts = frac_opts, buckets = Map.empty\<rparr>"
    by (simp add: new_CircuitBreaker_def frac_opts_def)
  show "halfOpenProbeCount frac_opts = 3 / 2" by (simp add: frac_opts_def)
qed code_simp+

lemma state_of_other:
  "k \<noteq> key \<Longrightarrow> state_of (br\<lparr>buckets := (buckets br)(k \<mapsto> b)\<rparr>) key = state_of br key"
  by (simp add: state_of_def bucket_def Let_def split: option.splits)

lemma state_of_same:
  "state_of (br\<lparr>buckets := (buckets br)(key \<mapsto> b)\<rparr>) key = state b"
  by (simp add: state_of_def bucket_def)

lemma allow_bucket_closed: "state b = CLOSED \<Longrightarrow> snd (allow_bucket os b nowMs) = b"
  by (simp add: allow_bucket_def allow_tail_def)

lemma onSuccess_bucket_closed:
  "state b = CLOSED \<Longrightarrow>
   onSuccess_bucket os b =
     (\<lparr>changed = False, from_state = None, to_state = None\<rparr>, b\<lparr>window := push (window b) 0\<rparr>)"
  by (simp add: onSuccess_bucket_def)

lemma closed_call:
  assumes "state_of br key = CLOSED" and "\<not> is_failure_of key c"
  shows "state_of (call br c) key = CLOSED"
proof -
  have st: "state (fst (bucket br key)) = CLOSED" using assms(1) by (simp add: state_of_def)
  show ?thesis
  proof (cases c)
  case (Allow k nowMs)
  show ?thesis
  proof (cases "k = key")
    case True
    then show ?thesis using st Allow
      by (simp add: allow_conv state_of_same allow_bucket_closed)
  next
    case False
    then show ?thesis using assms(1) Allow by (simp add: allow_conv state_of_other)
  qed
next
  case (OnSuccess k)
  show ?thesis
  proof (cases "k = key")
    case True
    then show ?thesis using st OnSuccess
      by (simp add: onSuccess_conv state_of_same onSuccess_bucket_closed)
  next
    case False
    then show ?thesis using assms(1) OnSuccess by (simp add: onSuccess_conv state_of_other)
  qed
next
  case (OnFailure k nowMs)
  then have "k \<noteq> key" using assms(2) by simp
  then show ?thesis using assms(1) OnFailure by (simp add: onFailure_conv state_of_other)
  qed
qed

lemma closed_calls:
  "state_of br key = CLOSED \<Longrightarrow> \<forall>c \<in> set cs. \<not> is_failure_of key c \<Longrightarrow>
   state_of (foldl call br cs) key = CLOSED"
  by (induction cs arbitrary: br) (simp_all add: closed_call)

text \<open>
  Claim C8. For a key whose bucket is \<open>CLOSED\<close> (or not yet created), \<open>onFailure(key, now)\<close>
  pushes \<open>1\<close> into the window and then moves the bucket to \<open>OPEN\<close> (\<open>openedAt = now\<close>,
  half-open counters reset, window kept) if and only if the window's count is at least
  \<open>minRequests\<close> and its failure rate at least \<open>failureThreshold\<close>. With window 10,
  min 4 and threshold 0.5, the outcomes F, S, F, S, F leave the key \<open>OPEN\<close>.
\<close>

theorem closed_on_failure:
  "(state (fst (bucket br key)) = CLOSED \<longrightarrow>
      onFailure br key nowMs =
        (let b = fst (bucket br key); w = push (window b) 1
         in if int (count w) \<ge> minRequests (opts br) \<and> failureRate w \<ge> failureThreshold (opts br)
            then (\<lparr>changed = True, from_state = Some CLOSED, to_state = Some OPEN\<rparr>,
                  br\<lparr>buckets := (buckets br)(key \<mapsto>
                       b\<lparr>window := w, state := OPEN, openedAtMs := Some nowMs,
                         halfOpenInFlight := 0, halfOpenSuccesses := 0,
                         halfOpenFailures := 0\<rparr>)\<rparr>)
            else (\<lparr>changed = False, from_state = None, to_state = None\<rparr>,
                  br\<lparr>buckets := (buckets br)(key \<mapsto> b\<lparr>window := w\<rparr>)\<rparr>)))
   \<and> map_option (\<lambda>br0. state_of (foldl call br0
          [OnFailure key t1, OnSuccess key, OnFailure key t2, OnSuccess key, OnFailure key t3]) key)
        (new_CircuitBreaker test_opts) = Some OPEN"
proof (intro conjI impI)
  assume "state (fst (bucket br key)) = CLOSED"
  then show "onFailure br key nowMs =
        (let b = fst (bucket br key); w = push (window b) 1
         in if int (count w) \<ge> minRequests (opts br) \<and> failureRate w \<ge> failureThreshold (opts br)
            then (\<lparr>changed = True, from_state = Some CLOSED, to_state = Some OPEN\<rparr>,
                  br\<lparr>buckets := (buckets br)(key \<mapsto>
                       b\<lparr>window := w, state := OPEN, openedAtMs := Some nowMs,
                         halfOpenInFlight := 0, halfOpenSuccesses := 0,
                         halfOpenFailures := 0\<rparr>)\<rparr>)
            else (\<lparr>changed = False, from_state = None, to_state = None\<rparr>,
                  br\<lparr>buckets := (buckets br)(key \<mapsto> b\<lparr>window := w\<rparr>)\<rparr>))"
    by (simp add: onFailure_conv onFailure_bucket_def toOpen_def Let_def)
next
  show "map_option (\<lambda>br0. state_of (foldl call br0
          [OnFailure key t1, OnSuccess key, OnFailure key t2, OnSuccess key, OnFailure key t3]) key)
        (new_CircuitBreaker test_opts) = Some OPEN"
    by code_simp
qed

theorem closed_on_failure_witness:
  "state (fst (bucket \<lparr>opts = test_opts, buckets = Map.empty\<rparr> ''svc'')) = CLOSED
   \<and> fst (onFailure \<lparr>opts = test_opts, buckets = Map.empty\<rparr> ''svc'' 1000)
       = \<lparr>changed = False, from_state = None, to_state = None\<rparr>
   \<and> state_of (snd (onFailure \<lparr>opts = test_opts\<lparr>minRequests := 1\<rparr>, buckets = Map.empty\<rparr> ''svc'' 1000)) ''svc''
       = OPEN"
proof -
  let ?br = "\<lparr>opts = test_opts, buckets = Map.empty\<rparr>"
  let ?br1 = "\<lparr>opts = test_opts\<lparr>minRequests := 1\<rparr>, buckets = Map.empty\<rparr>"
  have a: "state (fst (bucket ?br ''svc'')) = CLOSED" by (simp add: bucket_def Let_def)
  have b: "state (fst (bucket ?br1 ''svc'')) = CLOSED" by (simp add: bucket_def Let_def)
  have c: "int (count (push (window (fst (bucket ?br ''svc''))) 1)) < minRequests (opts ?br)"
    by code_simp
  have d: "int (count (push (window (fst (bucket ?br1 ''svc''))) 1)) \<ge> minRequests (opts ?br1)
           \<and> failureRate (push (window (fst (bucket ?br1 ''svc''))) 1) \<ge> failureThreshold (opts ?br1)"
    by code_simp
  have "fst (onFailure ?br ''svc'' 1000) = \<lparr>changed = False, from_state = None, to_state = None\<rparr>"
    using closed_on_failure [of ?br "''svc''" 1000, THEN conjunct1, THEN mp, OF a] c
    by (simp add: Let_def)
  moreover have "state_of (snd (onFailure ?br1 ''svc'' 1000)) ''svc'' = OPEN"
    using closed_on_failure [of ?br1 "''svc''" 1000, THEN conjunct1, THEN mp, OF b] d
    by (simp add: Let_def state_of_def bucket_def)
  ultimately show ?thesis using a by simp
qed

text \<open>
  Claim C10. For a key whose bucket is \<open>CLOSED\<close>, \<open>onSuccess(key)\<close> pushes \<open>0\<close> into the
  window, reports no change and leaves the key \<open>CLOSED\<close>, whatever the window then
  holds; the key stays \<open>CLOSED\<close> under any calls that include no \<open>onFailure\<close> for it. With
  window 10, min 4 and threshold 0.5, after F, S, F, S the count is 4 and the failure
  rate 0.5, so the threshold condition holds, yet the key is \<open>CLOSED\<close>.
\<close>

theorem closed_on_success:
  "(state (fst (bucket br key)) = CLOSED \<longrightarrow>
      onSuccess br key =
        (\<lparr>changed = False, from_state = None, to_state = None\<rparr>,
         br\<lparr>buckets := (buckets br)(key \<mapsto>
              (fst (bucket br key))\<lparr>window := push (window (fst (bucket br key))) 0\<rparr>)\<rparr>)
      \<and> state_of (snd (onSuccess br key)) key = CLOSED)
   \<and> (state_of br key = CLOSED \<and> (\<forall>c \<in> set cs. \<not> is_failure_of key c) \<longrightarrow>
        state_of (foldl call br cs) key = CLOSED)
   \<and> map_option (\<lambda>br0.
          let br4 = foldl call br0 [OnFailure key t1, OnSuccess key, OnFailure key t2, OnSuccess key]
          in (count (window_of br4 key), failureRate (window_of br4 key),
              int (count (window_of br4 key)) \<ge> minRequests (opts br4)
                \<and> failureRate (window_of br4 key) \<ge> failureThreshold (opts br4),
              state_of br4 key))
        (new_CircuitBreaker test_opts) = Some (4, 1 / 2, True, CLOSED)"
proof (intro conjI impI)
  assume c: "state (fst (bucket br key)) = CLOSED"
  then show "onSuccess br key =
        (\<lparr>changed = False, from_state = None, to_state = None\<rparr>,
         br\<lparr>buckets := (buckets br)(key \<mapsto>
              (fst (bucket br key))\<lparr>window := push (window (fst (bucket br key))) 0\<rparr>)\<rparr>)"
    by (simp add: onSuccess_conv onSuccess_bucket_closed)
  from c show "state_of (snd (onSuccess br key)) key = CLOSED"
    by (simp add: onSuccess_conv onSuccess_bucket_closed state_of_same)
next
  assume "state_of br key = CLOSED \<and> (\<forall>c \<in> set cs. \<not> is_failure_of key c)"
  then show "state_of (foldl call br cs) key = CLOSED" by (simp add: closed_calls)
next
  show "map_option (\<lambda>br0.
          let br4 = foldl call br0 [OnFailure key t1, OnSuccess key, OnFailure key t2, OnSuccess key]
          in (count (window_of br4 key), failureRate (window_of br4 key),
              int (count (window_of br4 key)) \<ge> minRequests (opts br4)
                \<and> failureRate (window_of br4 key) \<ge> failureThreshold (opts br4),
              state_of br4 key))
        (new_CircuitBreaker test_opts) = Some (4, 1 / 2, True, CLOSED)"
    by code_simp
qed

theorem half_open_results_witness:
  "failures (push (RollingWindow_init 5) 1) = 1
   \<and> fst (onFailure \<lparr>opts = probe_opts, buckets = [''svc'' \<mapsto>
       \<lparr>state = HALF_OPEN, openedAtMs = None, halfOpenInFlight = 2,
        window = push (RollingWindow_init 5) 1, halfOpenSuccesses = 1, halfOpenFailures = 0\<rparr>]\<rparr>
     ''svc'' 1061)
   = \<lparr>changed = True, from_state = Some HALF_OPEN, to_state = Some OPEN\<rparr>
   \<and> window_of (snd (onFailure \<lparr>opts = probe_opts, buckets = [''svc'' \<mapsto>
       \<lparr>state = HALF_OPEN, openedAtMs = None, halfOpenInFlight = 2,
        window = push (RollingWindow_init 5) 1, halfOpenSuccesses = 1, halfOpenFailures = 0\<rparr>]\<rparr>
     ''svc'' 1061)) ''svc'' = push (RollingWindow_init 5) 1
   \<and> fst (onSuccess \<lparr>opts = probe_opts, buckets = [''svc'' \<mapsto>
       \<lparr>state = HALF_OPEN, openedAtMs = None, halfOpenInFlight = 2,
        window = push (RollingWindow_init 5) 1, halfOpenSuccesses = 1, halfOpenFailures = 0\<rparr>]\<rparr>
     ''svc'')
   = \<lparr>changed = True, from_state = Some HALF_OPEN, to_state = Some CLOSED\<rparr>
   \<and> window_of (snd (onSuccess \<lparr>opts = probe_opts, buckets = [''svc'' \<mapsto>
       \<lparr>state = HALF_OPEN, openedAtMs = None, halfOpenInFlight = 2,
        window = push (RollingWindow_init 5) 1, halfOpenSuccesses = 1, halfOpenFailures = 0\<rparr>]\<rparr>
     ''svc'')) ''svc''
   = \<lparr>size_rw = 5, buf = [0, 0, 0, 0, 0], idx = 0, filled = False\<rparr>
   \<and> failures (window_of (snd (onSuccess \<lparr>opts = probe_opts, buckets = [''svc'' \<mapsto>
       \<lparr>state = HALF_OPEN, openedAtMs = None, halfOpenInFlight = 2,
        window = push (RollingWindow_init 5) 1, halfOpenSuccesses = 1, halfOpenFailures = 0\<rparr>]\<rparr>
     ''svc'')) ''svc'') = 0
   \<and> fst (onSuccess \<lparr>opts = probe_opts, buckets = [''svc'' \<mapsto>
       \<lparr>state = HALF_OPEN, openedAtMs = None, halfOpenInFlight = 1,
        window = push (RollingWindow_init 5) 1, halfOpenSuccesses = 0, halfOpenFailures = 0\<rparr>]\<rparr>
     ''svc'')
   = \<lparr>changed = False, from_state = None, to_state = None\<rparr>"
proof -
  let ?w = "push (RollingWindow_init 5) 1"
  let ?b = "\<lparr>state = HALF_OPEN, openedAtMs = None, halfOpenInFlight = 2,
        window = ?w, halfOpenSuccesses = 1, halfOpenFailures = 0\<rparr>"
  let ?bn = "\<lparr>state = HALF_OPEN, openedAtMs = None, halfOpenInFlight = 1,
        window = ?w, halfOpenSuccesses = 0, halfOpenFailures = 0\<rparr>"
  let ?br = "\<lparr>opts = probe_opts, buckets = [''svc'' \<mapsto> ?b]\<rparr>"
  let ?brn = "\<lparr>opts = probe_opts, buckets = [''svc'' \<mapsto> ?bn]\<rparr>"
  have f1: "failures ?w = 1" by code_simp
  have wv: "?w\<lparr>idx := 0, filled := False, buf := replicate (length (buf ?w)) 0\<rparr>
      = \<lparr>size_rw = 5, buf = [0, 0, 0, 0, 0], idx = 0, filled = False\<rparr>"
    by code_simp
  have h: "buckets ?br ''svc'' = Some ?b" "state ?b = HALF_OPEN" by simp_all
  have g: "of_int (halfOpenSuccesses ?b + 1) \<ge> halfOpenProbeCount (opts ?br)"
    by code_simp
  note t = half_open_results [OF h, of 1061]
  note t1 = t [THEN conjunct1]
  note t3 = t [THEN conjunct2, THEN conjunct2, THEN conjunct1]
  note t4 = t [THEN conjunct2, THEN conjunct2, THEN conjunct2, THEN conjunct1]
  note t6 = t [THEN conjunct2, THEN conjunct2, THEN conjunct2, THEN conjunct2, THEN conjunct2,
      THEN conjunct1, THEN mp, OF g]
  have 1: "fst (onFailure ?br ''svc'' 1061)
      = \<lparr>changed = True, from_state = Some HALF_OPEN, to_state = Some OPEN\<rparr>"
    by (simp only: t1 fst_conv)
  have 2: "window_of (snd (onFailure ?br ''svc'' 1061)) ''svc'' = ?w"
    using t3 by simp
  have 3: "fst (onSuccess ?br ''svc'')
      = \<lparr>changed = True, from_state = Some HALF_OPEN, to_state = Some CLOSED\<rparr>"
    by (simp only: t4 g if_True fst_conv)
  have 4: "window_of (snd (onSuccess ?br ''svc'')) ''svc''
      = \<lparr>size_rw = 5, buf = [0, 0, 0, 0, 0], idx = 0, filled = False\<rparr>"
    using t6 [THEN conjunct2, THEN conjunct1] wv by simp
  have 5: "failures (window_of (snd (onSuccess ?br ''svc'')) ''svc'') = 0"
    using t6 [THEN conjunct2, THEN conjunct2, THEN conjunct2, THEN conjunct1] .
  have hn: "buckets ?brn ''svc'' = Some ?bn" "state ?bn = HALF_OPEN" by simp_all
  have gn: "\<not> of_int (halfOpenSuccesses ?bn + 1) \<ge> halfOpenProbeCount (opts ?brn)"
    by code_simp
  have 6: "fst (onSuccess ?brn ''svc'')
      = \<lparr>changed = False, from_state = None, to_state = None\<rparr>"
    by (simp only: half_open_results [OF hn, of 1061, THEN conjunct2, THEN conjunct2,
          THEN conjunct2, THEN conjunct1] gn if_False fst_conv)
  show ?thesis using f1 1 2 3 4 5 6 by simp
qed

theorem closed_on_success_witness:
  "state (fst (bucket \<lparr>opts = test_opts, buckets = Map.empty\<rparr> ''svc'')) = CLOSED
   \<and> state_of (snd (onSuccess \<lparr>opts = test_opts, buckets = Map.empty\<rparr> ''svc'')) ''svc'' = CLOSED
   \<and> state_of (foldl call \<lparr>opts = test_opts, buckets = Map.empty\<rparr>
        [Allow ''svc'' 1, OnSuccess ''svc'', OnFailure ''other'' 2, OnSuccess ''svc'']) ''svc'' = CLOSED"
proof -
  let ?br = "\<lparr>opts = test_opts, buckets = Map.empty\<rparr>"
  let ?cs = "[Allow ''svc'' 1, OnSuccess ''svc'', OnFailure ''other'' 2, OnSuccess ''svc'']"
  have a: "state (fst (bucket ?br ''svc'')) = CLOSED" by (simp add: bucket_def Let_def)
  have b: "state_of ?br ''svc'' = CLOSED \<and> (\<forall>c \<in> set ?cs. \<not> is_failure_of ''svc'' c)"
    by (simp add: state_of_def bucket_def Let_def)
  have "state_of (snd (onSuccess ?br ''svc'')) ''svc'' = CLOSED"
    using closed_on_success [where br = ?br and key = "''svc''", THEN conjunct1, THEN mp, OF a,
        THEN conjunct2] .
  moreover have "state_of (foldl call ?br ?cs) ''svc'' = CLOSED"
    using closed_on_success [where br = ?br and key = "''svc''" and cs = ?cs,
        THEN conjunct2, THEN conjunct1, THEN mp, OF b] .
  ultimately show ?thesis using a by simp
qed

section \<open>Properties of the concurrency limiter\<close>

lemma findIndex_Some:
  "findIndex P xs = Some i \<Longrightarrow>
   \<exists>ys x zs. xs = ys @ x # zs \<and> i = length ys \<and> P x \<and> (\<forall>y \<in> set ys. \<not> P y)"
proof (induction xs arbitrary: i)
  case Nil
  then show ?case by simp
next
  case (Cons a xs)
  show ?case
  proof (cases "P a")
    case True
    with Cons.prems have "i = 0" by simp
    with True show ?thesis by (intro exI [of _ "[]"]) simp
  next
    case False
    with Cons.prems obtain j where j: "findIndex P xs = Some j" and i: "i = Suc j" by auto
    from Cons.IH [OF j] obtain ys x zs
      where "xs = ys @ x # zs" "j = length ys" "P x" "\<forall>y \<in> set ys. \<not> P y" by blast
    with False i show ?thesis by (intro exI [of _ "a # ys"]) simp
  qed
qed

lemma findIndex_None: "findIndex P xs = None \<longleftrightarrow> (\<forall>x \<in> set xs. \<not> P x)"
  by (induction xs) auto

lemma findIndex_append:
  "\<forall>y \<in> set ys. \<not> P y \<Longrightarrow> P x \<Longrightarrow> findIndex P (ys @ x # zs) = Some (length ys)"
  by (induction ys) auto

lemma splice1_append: "splice1 (length ys) (ys @ x # zs) = ys @ zs"
  by (simp add: splice1_def)

lemma waiters_invI:
  assumes "\<And>w. w \<in> set (queue lm) \<Longrightarrow>
       reject w = resolve w \<and> timer w = resolve w \<and> resolve w < fresh rt
       \<and> settled rt (resolve w) = None"
    "armed rt = timer ` set (queue lm)"
    "sorted_wrt (<) (map resolve (queue lm))"
  shows "waiters_inv (lm, rt)"
  using assms unfolding waiters_inv_def Let_def fst_conv snd_conv by blast

lemma waiters_invD:
  assumes "waiters_inv (lm, rt)"
  shows "\<And>w. w \<in> set (queue lm) \<Longrightarrow>
       reject w = resolve w \<and> timer w = resolve w \<and> resolve w < fresh rt
       \<and> settled rt (resolve w) = None"
    "armed rt = timer ` set (queue lm)"
    "sorted_wrt (<) (map resolve (queue lm))"
  using assms unfolding waiters_inv_def Let_def fst_conv snd_conv by blast+

lemma waiters_inv_init:
  "new_ConcurrencyLimiter mif mq et = Some lm \<Longrightarrow> waiters_inv (lm, Runtime_init)"
  by (rule waiters_invI)
     (auto simp: new_ConcurrencyLimiter_def Runtime_init_def split: if_splits)

lemma acquire_fast:
  "of_int (inFlight lm) < maxInFlight lm \<Longrightarrow>
   acquire lm rt =
     (fresh rt, lm\<lparr>inFlight := inFlight lm + 1\<rparr>,
      rt\<lparr>settled := (settled rt)(fresh rt \<mapsto> Fulfilled), fresh := fresh rt + 1\<rparr>)"
  by (simp add: acquire_def Promise_resolve_def)

lemma acquire_full:
  "\<not> of_int (inFlight lm) < maxInFlight lm \<Longrightarrow>
   maxQueue lm = 0 \<or> of_nat (length (queue lm)) \<ge> maxQueue lm \<Longrightarrow>
   acquire lm rt =
     (fresh rt, lm,
      rt\<lparr>settled := (settled rt)(fresh rt \<mapsto> Rejected (QueueFullError (maxQueue lm))),
         fresh := fresh rt + 1\<rparr>)"
  by (simp add: acquire_def Promise_reject_def)

lemma acquire_slow:
  "\<not> of_int (inFlight lm) < maxInFlight lm \<Longrightarrow>
   \<not> (maxQueue lm = 0 \<or> of_nat (length (queue lm)) \<ge> maxQueue lm) \<Longrightarrow>
   acquire lm rt =
     (fresh rt,
      lm\<lparr>queue := queue lm @ [\<lparr>resolve = fresh rt, reject = fresh rt, timer = fresh rt\<rparr>]\<rparr>,
      rt\<lparr>settled := (settled rt)(fresh rt := None), fresh := fresh rt + 1,
         armed := insert (fresh rt) (armed rt),
         delay := (delay rt)(fresh rt \<mapsto> enqueueTimeoutMs lm)\<rparr>)"
  by (simp add: acquire_def new_Promise_def setTimeout_def)

lemma acquire_cases:
  obtains (fast) "of_int (inFlight lm) < maxInFlight lm"
  | (full) "\<not> of_int (inFlight lm) < maxInFlight lm"
      "maxQueue lm = 0 \<or> of_nat (length (queue lm)) \<ge> maxQueue lm"
  | (slow) "\<not> of_int (inFlight lm) < maxInFlight lm"
      "\<not> (maxQueue lm = 0 \<or> of_nat (length (queue lm)) \<ge> maxQueue lm)"
  by blast

lemma waiters_inv_acquire:
  assumes inv: "waiters_inv (lm, rt)"
  shows "waiters_inv (snd (acquire lm rt))"
proof -
  note d = waiters_invD [OF inv]
  have ne: "\<And>w. w \<in> set (queue lm) \<Longrightarrow> resolve w \<noteq> fresh rt" using d(1) by fastforce
  show ?thesis
  proof (cases lm rule: acquire_cases)
    case fast
    show ?thesis unfolding acquire_fast [OF fast] snd_conv
    proof (rule waiters_invI)
      fix w assume "w \<in> set (queue (lm\<lparr>inFlight := inFlight lm + 1\<rparr>))"
      then have w: "w \<in> set (queue lm)" by simp
      show "reject w = resolve w \<and> timer w = resolve w \<and> resolve w
           < fresh (rt\<lparr>settled := (settled rt)(fresh rt \<mapsto> Fulfilled), fresh := fresh rt + 1\<rparr>)
         \<and> settled (rt\<lparr>settled := (settled rt)(fresh rt \<mapsto> Fulfilled),
                       fresh := fresh rt + 1\<rparr>) (resolve w) = None"
        using d(1) [OF w] ne [OF w] by simp
    qed (use d in simp_all)
  next
    case full
    show ?thesis unfolding acquire_full [OF full] snd_conv
    proof (rule waiters_invI)
      fix w assume w: "w \<in> set (queue lm)"
      show "reject w = resolve w \<and> timer w = resolve w \<and> resolve w
           < fresh (rt\<lparr>settled := (settled rt)(fresh rt \<mapsto> Rejected (QueueFullError (maxQueue lm))),
                       fresh := fresh rt + 1\<rparr>)
         \<and> settled (rt\<lparr>settled := (settled rt)(fresh rt \<mapsto> Rejected (QueueFullError (maxQueue lm))),
                       fresh := fresh rt + 1\<rparr>) (resolve w) = None"
        using d(1) [OF w] ne [OF w] by simp
    qed (use d in simp_all)
  next
    case slow
    let ?w = "\<lparr>resolve = fresh rt, reject = fresh rt, timer = fresh rt\<rparr>"
    have "\<forall>x \<in> set (map resolve (queue lm)). x < fresh rt" using d(1) by simp
    then have s: "sorted_wrt (<) (map resolve (queue lm @ [?w]))"
      using d(3) by (simp add: sorted_wrt_append)
    show ?thesis unfolding acquire_slow [OF slow] snd_conv
    proof (rule waiters_invI)
      fix w assume "w \<in> set (queue (lm\<lparr>queue := queue lm @ [?w]\<rparr>))"
      then have "w \<in> set (queue lm) \<or> w = ?w" by auto
      then show "reject w = resolve w \<and> timer w = resolve w \<and> resolve w
           < fresh (rt\<lparr>settled := (settled rt)(fresh rt := None), fresh := fresh rt + 1,
                       armed := insert (fresh rt) (armed rt),
                       delay := (delay rt)(fresh rt \<mapsto> enqueueTimeoutMs lm)\<rparr>)
         \<and> settled (rt\<lparr>settled := (settled rt)(fresh rt := None), fresh := fresh rt + 1,
                       armed := insert (fresh rt) (armed rt),
                       delay := (delay rt)(fresh rt \<mapsto> enqueueTimeoutMs lm)\<rparr>) (resolve w) = None"
        using d(1) [of w] by auto
    next
      show "sorted_wrt (<) (map resolve (queue (lm\<lparr>queue := queue lm @ [?w]\<rparr>)))"
        using s by simp
    qed (use d in simp_all)
  qed
qed

lemma release_empty:
  "inFlight lm \<le> 0 \<Longrightarrow>
   release lm rt = Inl (Error ''release() called when inFlight is already 0'')"
  by (simp add: release_def)

lemma release_handoff:
  "0 < inFlight lm \<Longrightarrow> queue lm = w # rest \<Longrightarrow>
   release lm rt =
     Inr (lm\<lparr>queue := rest\<rparr>, settle (clearTimeout rt (timer w)) (resolve w) Fulfilled)"
  by (simp add: release_def)

lemma release_decrement:
  "0 < inFlight lm \<Longrightarrow> queue lm = [] \<Longrightarrow>
   release lm rt = Inr (lm\<lparr>inFlight := inFlight lm - 1\<rparr>, rt)"
  by (simp add: release_def)

lemma settle_fresh [simp]: "fresh (settle rt p s) = fresh rt"
  by (simp add: settle_def)

lemma settle_armed [simp]: "armed (settle rt p s) = armed rt"
  by (simp add: settle_def)

lemma settle_other: "q \<noteq> p \<Longrightarrow> settled (settle rt p s) q = settled rt q"
  by (simp add: settle_def)

lemma settle_pending: "settled rt p = None \<Longrightarrow> settled (settle rt p s) p = Some s"
  by (simp add: settle_def)

lemma settle_settled: "settled rt q = Some v \<Longrightarrow> settled (settle rt p s) q = Some v"
  by (auto simp: settle_def)

lemma waiters_inv_release:
  assumes inv: "waiters_inv (lm, rt)" and rel: "release lm rt = Inr s"
  shows "waiters_inv s"
proof -
  note d = waiters_invD [OF inv]
  have pos: "0 < inFlight lm" using rel by (auto simp: release_def split: if_splits)
  show ?thesis
  proof (cases "queue lm")
    case Nil
    then have s: "s = (lm\<lparr>inFlight := inFlight lm - 1\<rparr>, rt)"
      using rel release_decrement [OF pos Nil] by simp
    show ?thesis unfolding s by (rule waiters_invI) (use d Nil in simp_all)
  next
    case (Cons w rest)
    then have s: "s = (lm\<lparr>queue := rest\<rparr>, settle (clearTimeout rt (timer w)) (resolve w) Fulfilled)"
      using rel release_handoff [OF pos Cons] by simp
    have lt: "\<forall>x \<in> set rest. resolve w < resolve x" using d(3) Cons by simp
    have tw: "timer w = resolve w" using d(1) [of w] Cons by simp
    have img: "timer ` set rest = timer ` set (queue lm) - {timer w}"
    proof -
      have "\<forall>x \<in> set rest. timer x \<noteq> timer w"
        using lt d(1) tw Cons by fastforce
      then show ?thesis using Cons by auto
    qed
    show ?thesis unfolding s
    proof (rule waiters_invI)
      fix x assume "x \<in> set (queue (lm\<lparr>queue := rest\<rparr>))"
      then have x: "x \<in> set rest" by simp
      then have "x \<in> set (queue lm)" and "resolve x \<noteq> resolve w" using Cons lt by auto
      then show "reject x = resolve x \<and> timer x = resolve x
          \<and> resolve x < fresh (settle (clearTimeout rt (timer w)) (resolve w) Fulfilled)
          \<and> settled (settle (clearTimeout rt (timer w)) (resolve w) Fulfilled) (resolve x) = None"
        using d(1) [of x] by (simp add: settle_other clearTimeout_def)
    next
      show "armed (settle (clearTimeout rt (timer w)) (resolve w) Fulfilled)
          = timer ` set (queue (lm\<lparr>queue := rest\<rparr>))"
        using img d(2) by (simp add: clearTimeout_def)
    qed (use d Cons in simp_all)
  qed
qed

lemma acquire_timeout_queued:
  assumes "queue lm = ys @ w # zs" and "\<forall>y \<in> set ys. resolve y \<noteq> resolve w"
  shows "acquire_timeout lm rt (resolve w) =
      (lm\<lparr>queue := ys @ zs\<rparr>,
       settle (clearTimeout rt (timer w)) (resolve w)
         (Rejected (QueueTimeoutError (enqueueTimeoutMs lm))))"
proof -
  have "findIndex (\<lambda>x. resolve x = resolve w) (queue lm) = Some (length ys)"
    unfolding assms(1) using assms(2) by (intro findIndex_append) simp_all
  then show ?thesis
    by (simp add: acquire_timeout_def assms(1) splice1_append)
qed

lemma waiters_inv_timeout:
  assumes inv: "waiters_inv (lm, rt)" and t: "t \<in> armed rt"
  shows "waiters_inv (acquire_timeout lm (rt\<lparr>armed := armed rt - {t}\<rparr>) t)"
proof -
  note d = waiters_invD [OF inv]
  from t d(2) obtain w where w: "w \<in> set (queue lm)" "timer w = t" by auto
  then have rw: "resolve w = t" using d(1) [of w] by simp
  from w(1) obtain ys zs where q: "queue lm = ys @ w # zs"
    by (meson split_list)
  have srt: "sorted_wrt (<) (map resolve (ys @ w # zs))" using d(3) q by simp
  then have ne: "\<forall>y \<in> set ys \<union> set zs. resolve y \<noteq> t"
    using rw by (auto simp: sorted_wrt_append)
  then have ney: "\<forall>y \<in> set ys. resolve y \<noteq> resolve w" using rw by simp
  have tm: "\<forall>y \<in> set (ys @ w # zs). timer y = resolve y" using d(1) q by simp
  have img: "timer ` set (ys @ zs) = timer ` set (ys @ w # zs) - {t}"
  proof -
    have "\<forall>y \<in> set (ys @ zs). timer y \<noteq> t" using ne tm by auto
    then show ?thesis using w(2) by auto
  qed
  let ?rt = "settle (clearTimeout (rt\<lparr>armed := armed rt - {t}\<rparr>) (timer w)) t
      (Rejected (QueueTimeoutError (enqueueTimeoutMs lm)))"
  have r: "acquire_timeout lm (rt\<lparr>armed := armed rt - {t}\<rparr>) t = (lm\<lparr>queue := ys @ zs\<rparr>, ?rt)"
    using acquire_timeout_queued [OF q ney] rw by simp
  have s2: "sorted_wrt (<) (map resolve (ys @ zs))"
    using srt by (auto simp: sorted_wrt_append)
  show ?thesis unfolding r
  proof (rule waiters_invI)
    fix x assume "x \<in> set (queue (lm\<lparr>queue := ys @ zs\<rparr>))"
    then have x: "x \<in> set ys \<union> set zs" by simp
    then have "x \<in> set (queue lm)" and "resolve x \<noteq> t" using q ne by auto
    then show "reject x = resolve x \<and> timer x = resolve x \<and> resolve x < fresh ?rt
        \<and> settled ?rt (resolve x) = None"
      using d(1) [of x] by (simp add: settle_other clearTimeout_def)
  next
    have "armed ?rt = armed rt - {t}" using w(2) by (simp add: clearTimeout_def)
    also have "\<dots> = timer ` set (ys @ w # zs) - {t}" by (simp only: d(2) q)
    also have "\<dots> = timer ` set (ys @ zs)" by (rule img [symmetric])
    finally show "armed ?rt = timer ` set (queue (lm\<lparr>queue := ys @ zs\<rparr>))" by simp
  next
    show "sorted_wrt (<) (map resolve (queue (lm\<lparr>queue := ys @ zs\<rparr>)))"
      using s2 by simp
  qed
qed

lemma waiters_inv_step:
  assumes "waiters_inv s"
  shows "waiters_inv (step s op)"
proof -
  obtain lm rt where s: "s = (lm, rt)" by (cases s)
  show ?thesis
  proof (cases op)
    case Acquire
    then show ?thesis using assms s by (simp add: waiters_inv_acquire)
  next
    case Release
    then show ?thesis using assms s
      by (cases "release lm rt") (simp_all add: waiters_inv_release)
  next
    case (Fire t)
    then show ?thesis using assms s by (simp add: waiters_inv_timeout)
  qed
qed

lemma waiters_inv_run: "waiters_inv s \<Longrightarrow> waiters_inv (run s ops)"
  unfolding run_def by (induction ops arbitrary: s) (simp_all add: waiters_inv_step)

text \<open>
  The capacity bounds are kept by every operation when both limits are whole numbers:
  then \<open>inFlight < maxInFlight\<close> leaves room for one more permit, and a queue shorter
  than \<open>maxQueue\<close> room for one more waiter.
\<close>

lemma of_nat_le_of_int: "(rat_of_nat n \<le> of_int x) \<longleftrightarrow> int n \<le> x"
  by (metis of_int_of_nat_eq of_int_le_iff)

lemma of_int_le_of_nat: "(of_int x \<le> rat_of_nat n) \<longleftrightarrow> x \<le> int n"
  by (metis of_int_of_nat_eq of_int_le_iff)

lemma capacity_inv_step:
  assumes z: "maxInFlight (fst s) \<in> \<int>" "maxQueue (fst s) \<in> \<int>"
    and inv: "capacity_inv (fst s)"
  shows "capacity_inv (fst (step s op))"
proof -
  obtain lm rt where s: "s = (lm, rt)" by (cases s)
  from z s obtain m q where m: "maxInFlight lm = of_int m" and q: "maxQueue lm = of_int q"
    by (auto elim!: Ints_cases)
  have ci: "capacity_inv lm" using inv s by simp
  have c: "0 \<le> inFlight lm" "inFlight lm \<le> m" "int (length (queue lm)) \<le> q"
    "queue lm \<noteq> [] \<Longrightarrow> inFlight lm = m"
    using ci unfolding capacity_inv_def m q by (simp_all add: of_nat_le_of_int)
  have goal: "\<And>lm'. maxInFlight lm' = of_int m \<Longrightarrow> maxQueue lm' = of_int q \<Longrightarrow>
      0 \<le> inFlight lm' \<Longrightarrow> inFlight lm' \<le> m \<Longrightarrow> int (length (queue lm')) \<le> q \<Longrightarrow>
      (queue lm' \<noteq> [] \<longrightarrow> inFlight lm' = m) \<Longrightarrow> capacity_inv lm'"
    unfolding capacity_inv_def by (simp add: of_nat_le_of_int)
  show ?thesis
  proof (cases op)
    case Acquire
    show ?thesis
    proof (cases lm rule: acquire_cases)
      case fast
      then have lt: "inFlight lm < m" unfolding m by simp
      then have e: "queue lm = []" using c(4) by auto
      show ?thesis unfolding s Acquire
        by (simp add: acquire_fast [OF fast]) (rule goal, use m q c lt e in simp_all)
    next
      case full
      show ?thesis unfolding s Acquire
        by (simp add: acquire_full [OF full]) (rule goal, use m q c in simp_all)
    next
      case slow
      then have "\<not> inFlight lm < m" and "\<not> q \<le> int (length (queue lm))"
        unfolding m q by (simp_all add: of_int_le_of_nat)
      then have eq: "inFlight lm = m" and room: "int (length (queue lm)) < q"
        using c(2) by simp_all
      show ?thesis unfolding s Acquire
        by (simp add: acquire_slow [OF slow]) (rule goal, use m q c eq room in simp_all)
    qed
  next
    case Release
    show ?thesis
    proof (cases "inFlight lm \<le> 0")
      case True
      then show ?thesis unfolding s Release using inv s by (simp add: release_empty)
    next
      case False
      then have pos: "0 < inFlight lm" by simp
      show ?thesis
      proof (cases "queue lm")
        case Nil
        show ?thesis unfolding s Release
          by (simp add: release_decrement [OF pos Nil]) (rule goal, use m q c pos Nil in simp_all)
      next
        case (Cons w rest)
        show ?thesis unfolding s Release
          by (simp add: release_handoff [OF pos Cons]) (rule goal, use m q c Cons in auto)
      qed
    qed
  next
    case (Fire t)
    show ?thesis
    proof (cases "t \<in> armed rt")
      case False
      then show ?thesis unfolding s Fire using inv s by simp
    next
      case True
      show ?thesis
      proof (cases "findIndex (\<lambda>w. resolve w = t) (queue lm)")
        case None
        then show ?thesis unfolding s Fire using True inv s
          by (simp add: acquire_timeout_def)
      next
        case (Some i)
        from findIndex_Some [OF Some] obtain ys x zs
          where qq: "queue lm = ys @ x # zs" and l: "i = length ys" by blast
        have sp: "splice1 i (queue lm) = ys @ zs" unfolding qq l by (rule splice1_append)
        show ?thesis unfolding s Fire using True Some
          by (simp add: acquire_timeout_def sp) (rule goal, use m q c qq in auto)
      qed
    qed
  qed
qed

lemma config_step:
  "maxInFlight (fst (step s op)) = maxInFlight (fst s)
   \<and> maxQueue (fst (step s op)) = maxQueue (fst s)
   \<and> enqueueTimeoutMs (fst (step s op)) = enqueueTimeoutMs (fst s)"
proof -
  obtain lm rt where s: "s = (lm, rt)" by (cases s)
  show ?thesis
  proof (cases op)
    case Acquire
    then show ?thesis unfolding s
      by (simp add: acquire_def Promise_resolve_def Promise_reject_def new_Promise_def)
  next
    case Release
    then show ?thesis unfolding s
      by (simp add: release_def split: list.splits)
  next
    case (Fire t)
    then show ?thesis unfolding s
      by (simp add: acquire_timeout_def split: option.splits)
  qed
qed

lemma config_run:
  "maxInFlight (fst (run s ops)) = maxInFlight (fst s)
   \<and> maxQueue (fst (run s ops)) = maxQueue (fst s)
   \<and> enqueueTimeoutMs (fst (run s ops)) = enqueueTimeoutMs (fst s)"
  unfolding run_def by (induction ops arbitrary: s) (simp_all add: config_step)

lemma new_ConcurrencyLimiter_config:
  assumes "new_ConcurrencyLimiter mif mq et = Some lm"
  shows "maxInFlight lm = mif" "maxQueue lm = mq" "enqueueTimeoutMs lm = et"
    "inFlight lm = 0" "queue lm = []"
  using assms by (auto simp: new_ConcurrencyLimiter_def split: if_splits)

lemma capacity_inv_run:
  "maxInFlight (fst s) \<in> \<int> \<Longrightarrow> maxQueue (fst s) \<in> \<int> \<Longrightarrow> capacity_inv (fst s) \<Longrightarrow>
   capacity_inv (fst (run s ops))"
  unfolding run_def
  by (induction ops arbitrary: s) (simp_all add: capacity_inv_step config_step)

text \<open>
  For whole limits the bounds hold after every interleaving that starts from the
  constructor.
\<close>

lemma capacity_whole_limits:
  assumes "new_ConcurrencyLimiter mif mq et = Some lm0" and "mif \<in> \<int>" and "mq \<in> \<int>"
    and "lm = fst (run (lm0, Runtime_init) ops)"
  shows "maxInFlight lm = mif \<and> maxQueue lm = mq
       \<and> 0 \<le> inFlight lm \<and> of_int (inFlight lm) \<le> maxInFlight lm
       \<and> of_nat (length (queue lm)) \<le> maxQueue lm
       \<and> (queue lm \<noteq> [] \<longrightarrow> of_int (inFlight lm) = maxInFlight lm)"
proof -
  note c = new_ConcurrencyLimiter_config [OF assms(1)]
  have q: "0 \<le> mq" using assms(1) by (auto simp: new_ConcurrencyLimiter_def split: if_splits)
  have p: "0 < mif" using assms(1) by (auto simp: new_ConcurrencyLimiter_def split: if_splits)
  have "capacity_inv lm0" using c p q by (simp add: capacity_inv_def)
  then have "capacity_inv (fst (run (lm0, Runtime_init) ops))"
    using assms(2,3) c by (intro capacity_inv_run) simp_all
  then have "capacity_inv lm" by (simp add: assms(4))
  moreover have "maxInFlight lm = mif \<and> maxQueue lm = mq"
    using config_run [of "(lm0, Runtime_init)" ops] c by (simp add: assms(4))
  ultimately show ?thesis by (simp add: capacity_inv_def)
qed

text \<open>
  Claim C3 states the three bounds for every interleaving from the initial state. The
  constructor accepts every finite \<open>maxInFlight > 0\<close> and \<open>maxQueue \<ge> 0\<close>, and \<open>acquire\<close>
  hands out a permit whenever \<open>inFlight < maxInFlight\<close> and queues a waiter whenever the
  queue is shorter than \<open>maxQueue\<close>. With \<open>maxInFlight = 1.5\<close> and \<open>maxQueue = 0.5\<close> three
  acquires give two permits and one queued waiter: \<open>inFlight = 2\<close> exceeds 1.5, the queue
  length 1 exceeds 0.5, and the queue is non-empty while \<open>inFlight\<close> differs from
  \<open>maxInFlight\<close>.
\<close>

theorem capacity_bounds_broken:
  "new_ConcurrencyLimiter (3 / 2) (1 / 2) 200 = Some frac_limiter
   \<and> maxInFlight frac_limiter = 3 / 2 \<and> maxQueue frac_limiter = 1 / 2
   \<and> inFlight (fst (run (frac_limiter, Runtime_init) [Acquire, Acquire, Acquire])) = 2
   \<and> length (queue (fst (run (frac_limiter, Runtime_init) [Acquire, Acquire, Acquire]))) = 1
   \<and> settled (snd (run (frac_limiter, Runtime_init) [Acquire, Acquire, Acquire])) 0
       = Some Fulfilled
   \<and> settled (snd (run (frac_limiter, Runtime_init) [Acquire, Acquire, Acquire])) 1
       = Some Fulfilled
   \<and> settled (snd (run (frac_limiter, Runtime_init) [Acquire, Acquire, Acquire])) 2 = None
   \<and> queue (fst (run (frac_limiter, Runtime_init) [Acquire, Acquire, Acquire])) \<noteq> []
   \<and> of_int (inFlight (fst (run (frac_limiter, Runtime_init) [Acquire, Acquire, Acquire])))
         \<noteq> maxInFlight frac_limiter
   \<and> \<not> of_int (inFlight (fst (run (frac_limiter, Runtime_init) [Acquire, Acquire, Acquire])))
         \<le> maxInFlight frac_limiter
   \<and> \<not> of_nat (length (queue (fst (run (frac_limiter, Runtime_init)
         [Acquire, Acquire, Acquire])))) \<le> maxQueue frac_limiter"
proof (intro conjI)
  show "new_ConcurrencyLimiter (3 / 2) (1 / 2) 200 = Some frac_limiter"
    by (simp add: new_ConcurrencyLimiter_def frac_limiter_def)
  show "maxInFlight frac_limiter = 3 / 2" "maxQueue frac_limiter = 1 / 2"
    by (simp_all add: frac_limiter_def)
qed code_simp+

lemma fifo_step:
  assumes lt: "resolve A < resolve B"
    and inv: "waiters_inv s"
    and fr: "resolve A < fresh (snd s)"
    and j: "settled (snd s) (resolve A) = Some Fulfilled
            \<or> (A \<in> set (queue (fst s)) \<and> B \<in> set (queue (fst s)))"
    and nf: "\<not> is_Fire op"
  shows "resolve A < fresh (snd (step s op))
       \<and> (settled (snd (step s op)) (resolve A) = Some Fulfilled
            \<or> (A \<in> set (queue (fst (step s op))) \<and> B \<in> set (queue (fst (step s op)))))"
proof -
  obtain lm rt where s: "s = (lm, rt)" by (cases s)
  note d = waiters_invD [OF inv [unfolded s]]
  have fr': "resolve A < fresh rt" using fr s by simp
  have j': "settled rt (resolve A) = Some Fulfilled \<or> (A \<in> set (queue lm) \<and> B \<in> set (queue lm))"
    using j s by simp
  show ?thesis
  proof (cases op)
    case Acquire
    consider (fast) "of_int (inFlight lm) < maxInFlight lm"
      | (full) "\<not> of_int (inFlight lm) < maxInFlight lm" "maxQueue lm = 0 \<or> of_nat (length (queue lm)) \<ge> maxQueue lm"
      | (slow) "\<not> of_int (inFlight lm) < maxInFlight lm" "\<not> (maxQueue lm = 0 \<or> of_nat (length (queue lm)) \<ge> maxQueue lm)"
      by blast
    then show ?thesis
    proof cases
      case fast
      show ?thesis unfolding s Acquire using fr' j' by (auto simp: acquire_fast [OF fast])
    next
      case full
      show ?thesis unfolding s Acquire using fr' j' by (auto simp: acquire_full [OF full])
    next
      case slow
      show ?thesis unfolding s Acquire using fr' j' by (auto simp: acquire_slow [OF slow])
    qed
  next
    case Release
    show ?thesis
    proof (cases "inFlight lm \<le> 0")
      case True
      then show ?thesis unfolding s Release using fr' j' by (simp add: release_empty)
    next
      case False
      then have pos: "0 < inFlight lm" by simp
      show ?thesis
      proof (cases "queue lm")
        case Nil
        then show ?thesis unfolding s Release using fr' j'
          by (simp add: release_decrement [OF pos Nil])
      next
        case (Cons w rest)
        have st: "step (lm, rt) Release =
            (lm\<lparr>queue := rest\<rparr>, settle (clearTimeout rt (timer w)) (resolve w) Fulfilled)"
          by (simp add: release_handoff [OF pos Cons])
        have ord: "\<forall>x \<in> set rest. resolve w < resolve x" using d(3) Cons by simp
        have pw: "settled rt (resolve w) = None" using d(1) [of w] Cons by simp
        from j' show ?thesis
        proof
          assume "settled rt (resolve A) = Some Fulfilled"
          then show ?thesis unfolding s Release st using fr'
            by (simp add: settle_settled clearTimeout_def)
        next
          assume ab: "A \<in> set (queue lm) \<and> B \<in> set (queue lm)"
          show ?thesis
          proof (cases "A = w")
            case True
            then show ?thesis unfolding s Release st using fr' pw
              by (simp add: settle_pending clearTimeout_def)
          next
            case False
            then have a: "A \<in> set rest" using ab Cons by simp
            then have "resolve w < resolve B" using ord lt by fastforce
            then have "B \<noteq> w" by auto
            then have "B \<in> set rest" using ab Cons by simp
            then show ?thesis unfolding s Release st using fr' a
              by (simp add: clearTimeout_def)
          qed
        qed
      qed
    qed
  next
    case (Fire t)
    then show ?thesis using nf by simp
  qed
qed

lemma fifo_run:
  assumes lt: "resolve A < resolve B"
  shows "waiters_inv s \<Longrightarrow> resolve A < fresh (snd s) \<Longrightarrow>
     settled (snd s) (resolve A) = Some Fulfilled
       \<or> (A \<in> set (queue (fst s)) \<and> B \<in> set (queue (fst s))) \<Longrightarrow>
     \<forall>op \<in> set ops. \<not> is_Fire op \<Longrightarrow>
     waiters_inv (run s ops)
     \<and> (settled (snd (run s ops)) (resolve A) = Some Fulfilled
         \<or> (A \<in> set (queue (fst (run s ops))) \<and> B \<in> set (queue (fst (run s ops)))))"
proof (induction ops arbitrary: s)
  case Nil
  then show ?case by (simp add: run_def)
next
  case (Cons op ops)
  have nf: "\<not> is_Fire op" using Cons.prems(4) by simp
  have 1: "waiters_inv (step s op)" using Cons.prems(1) by (rule waiters_inv_step)
  note 2 = fifo_step [OF lt Cons.prems(1-3) nf]
  have "waiters_inv (run (step s op) ops)
     \<and> (settled (snd (run (step s op) ops)) (resolve A) = Some Fulfilled
         \<or> (A \<in> set (queue (fst (run (step s op) ops)))
            \<and> B \<in> set (queue (fst (run (step s op) ops)))))"
    using 1 2 Cons.prems(4) by (intro Cons.IH) simp_all
  then show ?case by (simp add: run_def)
qed

text \<open>
  Claim C4. \<open>release()\<close> with \<open>inFlight \<le> 0\<close> throws and changes nothing; otherwise with a
  non-empty queue it removes exactly the head waiter, clears that waiter's timer and
  fulfils its promise, leaving \<open>inFlight\<close> as it was; otherwise it decrements \<open>inFlight\<close>.
  Hand-off is first-in first-out: in a state reached from the constructor in which waiter
  \<open>A\<close> stands before waiter \<open>B\<close> in the queue, both are pending, and after any further
  acquires and releases without a timer firing, \<open>B\<close> has a permit only if \<open>A\<close> has one.
\<close>

theorem release_handoff_fifo:
  "(inFlight lm \<le> 0 \<longrightarrow>
      release lm rt = Inl (Error ''release() called when inFlight is already 0'')
      \<and> step (lm, rt) Release = (lm, rt))
   \<and> (0 < inFlight lm \<and> queue lm = w # rest \<longrightarrow>
      release lm rt =
        Inr (lm\<lparr>queue := rest\<rparr>, settle (clearTimeout rt (timer w)) (resolve w) Fulfilled)
      \<and> inFlight (fst (step (lm, rt) Release)) = inFlight lm
      \<and> timer w \<notin> armed (snd (step (lm, rt) Release))
      \<and> (settled rt (resolve w) = None \<longrightarrow>
           settled (snd (step (lm, rt) Release)) (resolve w) = Some Fulfilled))
   \<and> (0 < inFlight lm \<and> queue lm = [] \<longrightarrow>
      release lm rt = Inr (lm\<lparr>inFlight := inFlight lm - 1\<rparr>, rt))
   \<and> (new_ConcurrencyLimiter mif mq et = Some lm0
      \<and> s = run (lm0, Runtime_init) ops0
      \<and> queue (fst s) = q1 @ A # q2 @ B # q3
      \<and> (\<forall>op \<in> set ops. \<not> is_Fire op) \<longrightarrow>
      settled (snd s) (resolve A) = None \<and> settled (snd s) (resolve B) = None
      \<and> (settled (snd (run s ops)) (resolve B) = Some Fulfilled \<longrightarrow>
           settled (snd (run s ops)) (resolve A) = Some Fulfilled))"
proof (intro conjI impI; (elim conjE)?)
  assume "inFlight lm \<le> 0"
  then show "release lm rt = Inl (Error ''release() called when inFlight is already 0'')"
    and "step (lm, rt) Release = (lm, rt)"
    by (simp_all add: release_empty)
next
  assume a: "0 < inFlight lm" "queue lm = w # rest"
  show "release lm rt =
        Inr (lm\<lparr>queue := rest\<rparr>, settle (clearTimeout rt (timer w)) (resolve w) Fulfilled)"
    using a by (rule release_handoff)
  show "inFlight (fst (step (lm, rt) Release)) = inFlight lm"
    by (simp add: release_handoff [OF a])
  show "timer w \<notin> armed (snd (step (lm, rt) Release))"
    by (simp add: release_handoff [OF a] clearTimeout_def)
  assume "settled rt (resolve w) = None"
  then show "settled (snd (step (lm, rt) Release)) (resolve w) = Some Fulfilled"
    by (simp add: release_handoff [OF a] settle_pending clearTimeout_def)
next
  assume "0 < inFlight lm" "queue lm = []"
  then show "release lm rt = Inr (lm\<lparr>inFlight := inFlight lm - 1\<rparr>, rt)"
    by (rule release_decrement)
next
  assume n: "new_ConcurrencyLimiter mif mq et = Some lm0"
    and s: "s = run (lm0, Runtime_init) ops0"
    and q: "queue (fst s) = q1 @ A # q2 @ B # q3"
    and nf: "\<forall>op \<in> set ops. \<not> is_Fire op"
  have inv: "waiters_inv s"
    unfolding s using waiters_inv_init [OF n] by (rule waiters_inv_run)
  obtain lm' rt' where s': "s = (lm', rt')" by (cases s)
  note d = waiters_invD [OF inv [unfolded s']]
  have q': "queue lm' = q1 @ A # q2 @ B # q3" using q s' by simp
  have lt: "resolve A < resolve B"
    using d(3) unfolding q' by (simp add: sorted_wrt_append)
  have mem: "A \<in> set (queue lm')" "B \<in> set (queue lm')" unfolding q' by simp_all
  show pA: "settled (snd s) (resolve A) = None" using d(1) [OF mem(1)] s' by simp
  show pB: "settled (snd s) (resolve B) = None" using d(1) [OF mem(2)] s' by simp
  have fr: "resolve A < fresh (snd s)" using d(1) [OF mem(1)] s' by simp
  have "settled (snd s) (resolve A) = Some Fulfilled
       \<or> (A \<in> set (queue (fst s)) \<and> B \<in> set (queue (fst s)))"
    using mem s' by simp
  from fifo_run [OF lt inv fr this nf]
  have inv': "waiters_inv (run s ops)"
    and j: "settled (snd (run s ops)) (resolve A) = Some Fulfilled
         \<or> (A \<in> set (queue (fst (run s ops))) \<and> B \<in> set (queue (fst (run s ops))))"
    by blast+
  assume bf: "settled (snd (run s ops)) (resolve B) = Some Fulfilled"
  obtain lm2 rt2 where s2: "run s ops = (lm2, rt2)" by (cases "run s ops")
  from j show "settled (snd (run s ops)) (resolve A) = Some Fulfilled"
  proof
    assume "A \<in> set (queue (fst (run s ops))) \<and> B \<in> set (queue (fst (run s ops)))"
    then have "B \<in> set (queue lm2)" using s2 by simp
    then have "settled rt2 (resolve B) = None"
      using waiters_invD(1) [OF inv' [unfolded s2]] by blast
    then show ?thesis using bf s2 by simp
  qed
qed

text \<open>
  Claim C5. \<open>acquire()\<close> with \<open>inFlight < maxInFlight\<close> increments \<open>inFlight\<close> and returns a
  fulfilled promise; otherwise with \<open>maxQueue = 0\<close> or \<open>maxQueue\<close> waiters queued it returns
  a promise rejected with \<open>QueueFullError(maxQueue)\<close> and leaves the limiter as it was;
  otherwise it appends a waiter whose promise is pending and whose timer is armed. When
  the timer of a queued waiter fires, the waiter leaves the queue, its promise is rejected
  with \<open>QueueTimeoutError(enqueueTimeoutMs)\<close> and \<open>inFlight\<close> is unchanged. In every state
  reached from the constructor each queued waiter is such a waiter: it is the only one
  with its promise, its timer is armed and its promise is pending.
\<close>

theorem acquire_admission:
  "(of_int (inFlight lm) < maxInFlight lm \<longrightarrow>
      acquire lm rt = (fresh rt, lm\<lparr>inFlight := inFlight lm + 1\<rparr>, snd (Promise_resolve rt))
      \<and> settled (snd (snd (acquire lm rt))) (fst (acquire lm rt)) = Some Fulfilled)
   \<and> (\<not> of_int (inFlight lm) < maxInFlight lm
      \<and> (maxQueue lm = 0 \<or> of_nat (length (queue lm)) \<ge> maxQueue lm) \<longrightarrow>
      acquire lm rt =
        (fresh rt, lm, snd (Promise_reject rt (QueueFullError (maxQueue lm))))
      \<and> settled (snd (snd (acquire lm rt))) (fst (acquire lm rt))
          = Some (Rejected (QueueFullError (maxQueue lm))))
   \<and> (\<not> of_int (inFlight lm) < maxInFlight lm
      \<and> maxQueue lm \<noteq> 0 \<and> of_nat (length (queue lm)) < maxQueue lm \<longrightarrow>
      acquire lm rt =
        (fresh rt,
         lm\<lparr>queue := queue lm @ [\<lparr>resolve = fresh rt, reject = fresh rt, timer = fresh rt\<rparr>]\<rparr>,
         setTimeout (snd (new_Promise rt)) (fresh rt) (enqueueTimeoutMs lm))
      \<and> settled (snd (snd (acquire lm rt))) (fst (acquire lm rt)) = None
      \<and> fresh rt \<in> armed (snd (snd (acquire lm rt)))
      \<and> delay (snd (snd (acquire lm rt))) (fresh rt) = Some (enqueueTimeoutMs lm))
   \<and> (queue lm = q1 @ w # q2 \<and> (\<forall>x \<in> set q1. resolve x \<noteq> resolve w)
      \<and> timer w = resolve w \<and> timer w \<in> armed rt \<longrightarrow>
      step (lm, rt) (Fire (timer w)) =
        (lm\<lparr>queue := q1 @ q2\<rparr>,
         settle (rt\<lparr>armed := armed rt - {timer w}\<rparr>) (resolve w)
           (Rejected (QueueTimeoutError (enqueueTimeoutMs lm))))
      \<and> inFlight (fst (step (lm, rt) (Fire (timer w)))) = inFlight lm
      \<and> (settled rt (resolve w) = None \<longrightarrow>
           settled (snd (step (lm, rt) (Fire (timer w)))) (resolve w)
             = Some (Rejected (QueueTimeoutError (enqueueTimeoutMs lm)))))
   \<and> (new_ConcurrencyLimiter mif mq et = Some lm0
      \<and> run (lm0, Runtime_init) ops = (lm', rt') \<and> queue lm' = q1' @ w' # q2' \<longrightarrow>
      (\<forall>x \<in> set q1'. resolve x \<noteq> resolve w') \<and> timer w' = resolve w'
      \<and> timer w' \<in> armed rt' \<and> settled rt' (resolve w') = None
      \<and> enqueueTimeoutMs lm' = et)"
proof (intro conjI impI; (elim conjE)?)
  assume a: "of_int (inFlight lm) < maxInFlight lm"
  show "acquire lm rt = (fresh rt, lm\<lparr>inFlight := inFlight lm + 1\<rparr>, snd (Promise_resolve rt))"
    and "settled (snd (snd (acquire lm rt))) (fst (acquire lm rt)) = Some Fulfilled"
    by (simp_all add: acquire_fast [OF a] Promise_resolve_def)
next
  assume a: "\<not> of_int (inFlight lm) < maxInFlight lm"
    "maxQueue lm = 0 \<or> of_nat (length (queue lm)) \<ge> maxQueue lm"
  show "acquire lm rt = (fresh rt, lm, snd (Promise_reject rt (QueueFullError (maxQueue lm))))"
    and "settled (snd (snd (acquire lm rt))) (fst (acquire lm rt))
          = Some (Rejected (QueueFullError (maxQueue lm)))"
    by (simp_all add: acquire_full [OF a] Promise_reject_def)
next
  assume "\<not> of_int (inFlight lm) < maxInFlight lm" "maxQueue lm \<noteq> 0"
    "of_nat (length (queue lm)) < maxQueue lm"
  then have a: "\<not> of_int (inFlight lm) < maxInFlight lm"
    "\<not> (maxQueue lm = 0 \<or> of_nat (length (queue lm)) \<ge> maxQueue lm)" by simp_all
  show "acquire lm rt =
        (fresh rt,
         lm\<lparr>queue := queue lm @ [\<lparr>resolve = fresh rt, reject = fresh rt, timer = fresh rt\<rparr>]\<rparr>,
         setTimeout (snd (new_Promise rt)) (fresh rt) (enqueueTimeoutMs lm))"
    and "settled (snd (snd (acquire lm rt))) (fst (acquire lm rt)) = None"
    and "fresh rt \<in> armed (snd (snd (acquire lm rt)))"
    and "delay (snd (snd (acquire lm rt))) (fresh rt) = Some (enqueueTimeoutMs lm)"
    by (simp_all add: acquire_slow [OF a] new_Promise_def setTimeout_def)
next
  assume q: "queue lm = q1 @ w # q2" and ne: "\<forall>x \<in> set q1. resolve x \<noteq> resolve w"
    and tw: "timer w = resolve w" and ar: "timer w \<in> armed rt"
  have st: "step (lm, rt) (Fire (timer w)) =
        (lm\<lparr>queue := q1 @ q2\<rparr>,
         settle (rt\<lparr>armed := armed rt - {timer w}\<rparr>) (resolve w)
           (Rejected (QueueTimeoutError (enqueueTimeoutMs lm))))"
    using ar acquire_timeout_queued [OF q ne, of "rt\<lparr>armed := armed rt - {timer w}\<rparr>"] tw
    by (simp add: clearTimeout_def)
  show "step (lm, rt) (Fire (timer w)) =
        (lm\<lparr>queue := q1 @ q2\<rparr>,
         settle (rt\<lparr>armed := armed rt - {timer w}\<rparr>) (resolve w)
           (Rejected (QueueTimeoutError (enqueueTimeoutMs lm))))"
    by (rule st)
  show "inFlight (fst (step (lm, rt) (Fire (timer w)))) = inFlight lm"
    unfolding st by simp
  assume "settled rt (resolve w) = None"
  then show "settled (snd (step (lm, rt) (Fire (timer w)))) (resolve w)
             = Some (Rejected (QueueTimeoutError (enqueueTimeoutMs lm)))"
    unfolding st by (simp add: settle_pending)
next
  assume n: "new_ConcurrencyLimiter mif mq et = Some lm0"
    and r: "run (lm0, Runtime_init) ops = (lm', rt')" and q: "queue lm' = q1' @ w' # q2'"
  have "waiters_inv (run (lm0, Runtime_init) ops)"
    using waiters_inv_init [OF n] by (rule waiters_inv_run)
  then have inv: "waiters_inv (lm', rt')" by (simp add: r)
  note d = waiters_invD [OF inv]
  have mem: "w' \<in> set (queue lm')" by (simp add: q)
  have "sorted_wrt (<) (map resolve (q1' @ w' # q2'))" using d(3) q by simp
  then show "\<forall>x \<in> set q1'. resolve x \<noteq> resolve w'"
    by (auto simp: sorted_wrt_append)
  show "timer w' = resolve w'" using d(1) [OF mem] by simp
  show "timer w' \<in> armed rt'" using d(2) mem by simp
  show "settled rt' (resolve w') = None" using d(1) [OF mem] by simp
  show "enqueueTimeoutMs lm' = et"
    using config_run [of "(lm0, Runtime_init)" ops] new_ConcurrencyLimiter_config(3) [OF n]
    by (simp add: r)
qed


theorem release_handoff_fifo_witness:
  "new_ConcurrencyLimiter 1 2 200 = Some test_limiter
   \<and> release test_limiter Runtime_init
       = Inl (Error ''release() called when inFlight is already 0'')
   \<and> queue (fst (run (test_limiter, Runtime_init) [Acquire, Acquire, Acquire]))
       = [\<lparr>resolve = 1, reject = 1, timer = 1\<rparr>, \<lparr>resolve = 2, reject = 2, timer = 2\<rparr>]
   \<and> inFlight (fst (step (run (test_limiter, Runtime_init) [Acquire, Acquire, Acquire]) Release)) = 1
   \<and> settled (snd (step (run (test_limiter, Runtime_init) [Acquire, Acquire, Acquire]) Release)) 1
       = Some Fulfilled
   \<and> settled (snd (step (run (test_limiter, Runtime_init) [Acquire, Acquire, Acquire]) Release)) 2
       = None
   \<and> inFlight (fst (step (run (test_limiter, Runtime_init) [Acquire]) Release)) = 0
   \<and> settled (snd (run (run (test_limiter, Runtime_init) [Acquire, Acquire, Acquire])
        [Release, Release])) 2 = Some Fulfilled
   \<and> settled (snd (run (run (test_limiter, Runtime_init) [Acquire, Acquire, Acquire])
        [Release, Release])) 1 = Some Fulfilled"
proof -
  let ?A = "\<lparr>resolve = 1, reject = 1, timer = 1\<rparr>"
  let ?B = "\<lparr>resolve = 2, reject = 2, timer = 2\<rparr>"
  let ?s = "run (test_limiter, Runtime_init) [Acquire, Acquire, Acquire]"
  let ?s1 = "run (test_limiter, Runtime_init) [Acquire]"
  have n: "new_ConcurrencyLimiter 1 2 200 = Some test_limiter"
    by (simp add: new_ConcurrencyLimiter_def test_limiter_def)
  have e: "inFlight test_limiter \<le> 0" by (simp add: test_limiter_def)
  have 1: "release test_limiter Runtime_init
       = Inl (Error ''release() called when inFlight is already 0'')"
    using release_handoff_fifo [where lm = test_limiter and rt = Runtime_init,
        THEN conjunct1, THEN mp, OF e] by simp
  have q: "queue (fst ?s) = [?A, ?B]" and i: "inFlight (fst ?s) = 1"
    and pA: "settled (snd ?s) 1 = None"
    and pB: "settled (snd (step ?s Release)) 2 = None"
    and i1: "inFlight (fst ?s1) = 1" and q1: "queue (fst ?s1) = []"
    and fB: "settled (snd (run ?s [Release, Release])) 2 = Some Fulfilled"
    by code_simp+
  have h2: "0 < inFlight (fst ?s) \<and> queue (fst ?s) = ?A # [?B]" using q i by simp
  note r2 = release_handoff_fifo [where lm = "fst ?s" and rt = "snd ?s" and w = ?A
      and rest = "[?B]", THEN conjunct2, THEN conjunct1, THEN mp, OF h2]
  have 2: "inFlight (fst (step ?s Release)) = 1"
    and 3: "settled (snd (step ?s Release)) 1 = Some Fulfilled"
    using r2 i pA by simp_all
  have h3: "0 < inFlight (fst ?s1) \<and> queue (fst ?s1) = []" using q1 i1 by simp
  note r3 = release_handoff_fifo [where lm = "fst ?s1" and rt = "snd ?s1",
      THEN conjunct2, THEN conjunct2, THEN conjunct1, THEN mp, OF h3]
  have "step (fst ?s1, snd ?s1) Release = ((fst ?s1)\<lparr>inFlight := inFlight (fst ?s1) - 1\<rparr>, snd ?s1)"
    unfolding step.simps r3 by simp
  then have 4: "inFlight (fst (step ?s1 Release)) = 0" using i1 by simp
  have h4: "new_ConcurrencyLimiter 1 2 200 = Some test_limiter
      \<and> ?s = run (test_limiter, Runtime_init) [Acquire, Acquire, Acquire]
      \<and> queue (fst ?s) = [] @ ?A # [] @ ?B # []
      \<and> (\<forall>op \<in> set [Release, Release]. \<not> is_Fire op)"
    using n q by simp
  note r4 = release_handoff_fifo [where ?lm0.0 = test_limiter and mif = 1 and mq = 2
      and et = 200 and s = ?s and ?ops0.0 = "[Acquire, Acquire, Acquire]" and ?q1.0 = "[]"
      and A = ?A and ?q2.0 = "[]" and B = ?B and ?q3.0 = "[]" and ops = "[Release, Release]",
      THEN conjunct2, THEN conjunct2, THEN conjunct2, THEN mp, OF h4]
  have 5: "settled (snd (run ?s [Release, Release])) 1 = Some Fulfilled"
    using r4 fB by simp
  show ?thesis using n 1 q 2 3 pB 4 fB 5 by simp
qed

theorem acquire_admission_witness:
  "fst (acquire test_limiter Runtime_init) = 0
   \<and> inFlight (fst (snd (acquire test_limiter Runtime_init))) = 1
   \<and> settled (snd (snd (acquire test_limiter Runtime_init))) 0 = Some Fulfilled
   \<and> settled (snd (snd (acquire (test_limiter\<lparr>maxQueue := 0, inFlight := 1\<rparr>) Runtime_init))) 0
       = Some (Rejected (QueueFullError 0))
   \<and> queue (fst (snd (acquire (test_limiter\<lparr>inFlight := 1\<rparr>) Runtime_init)))
       = [\<lparr>resolve = 0, reject = 0, timer = 0\<rparr>]
   \<and> run (test_limiter, Runtime_init) [Acquire, Acquire, Acquire]
       = (test_limiter\<lparr>inFlight := 1, queue :=
            [\<lparr>resolve = 1, reject = 1, timer = 1\<rparr>, \<lparr>resolve = 2, reject = 2, timer = 2\<rparr>]\<rparr>,
          \<lparr>settled = [0 \<mapsto> Fulfilled], armed = {1, 2},
           delay = [1 \<mapsto> 200, 2 \<mapsto> 200], fresh = 3\<rparr>)
   \<and> step (run (test_limiter, Runtime_init) [Acquire, Acquire, Acquire]) (Fire 2)
       = (test_limiter\<lparr>inFlight := 1, queue := [\<lparr>resolve = 1, reject = 1, timer = 1\<rparr>]\<rparr>,
          \<lparr>settled = [0 \<mapsto> Fulfilled, 2 \<mapsto> Rejected (QueueTimeoutError 200)],
           armed = {1}, delay = [1 \<mapsto> 200, 2 \<mapsto> 200], fresh = 3\<rparr>)"
proof -
  let ?A = "\<lparr>resolve = 1, reject = 1, timer = 1\<rparr>"
  let ?B = "\<lparr>resolve = 2, reject = 2, timer = 2\<rparr>"
  let ?lm = "test_limiter\<lparr>inFlight := 1, queue := [?A, ?B]\<rparr>"
  let ?rt = "\<lparr>settled = [0 \<mapsto> Fulfilled], armed = {1, 2},
           delay = [1 \<mapsto> 200, 2 \<mapsto> 200], fresh = 3\<rparr>"
  have n: "new_ConcurrencyLimiter 1 2 200 = Some test_limiter"
    by (simp add: new_ConcurrencyLimiter_def test_limiter_def)
  have a: "of_int (inFlight test_limiter) < maxInFlight test_limiter" by (simp add: test_limiter_def)
  note r1 = acquire_admission [where lm = test_limiter and rt = Runtime_init,
      THEN conjunct1, THEN mp, OF a]
  have 1: "fst (acquire test_limiter Runtime_init) = 0"
    "inFlight (fst (snd (acquire test_limiter Runtime_init))) = 1"
    "settled (snd (snd (acquire test_limiter Runtime_init))) 0 = Some Fulfilled"
    using r1 by (simp_all add: Runtime_init_def test_limiter_def Promise_resolve_def)
  let ?lf = "test_limiter\<lparr>maxQueue := 0, inFlight := 1\<rparr>"
  have b: "\<not> of_int (inFlight ?lf) < maxInFlight ?lf
      \<and> (maxQueue ?lf = 0 \<or> of_nat (length (queue ?lf)) \<ge> maxQueue ?lf)"
    by (simp add: test_limiter_def)
  note r2 = acquire_admission [where lm = ?lf and rt = Runtime_init,
      THEN conjunct2, THEN conjunct1, THEN mp, OF b]
  have 2: "settled (snd (snd (acquire ?lf Runtime_init))) 0 = Some (Rejected (QueueFullError 0))"
    using r2 by (simp add: Runtime_init_def Promise_reject_def)
  let ?lq = "test_limiter\<lparr>inFlight := 1\<rparr>"
  have c: "\<not> of_int (inFlight ?lq) < maxInFlight ?lq
      \<and> maxQueue ?lq \<noteq> 0 \<and> of_nat (length (queue ?lq)) < maxQueue ?lq"
    by (simp add: test_limiter_def)
  note r3 = acquire_admission [where lm = ?lq and rt = Runtime_init,
      THEN conjunct2, THEN conjunct2, THEN conjunct1, THEN mp, OF c]
  have 3: "queue (fst (snd (acquire ?lq Runtime_init))) = [\<lparr>resolve = 0, reject = 0, timer = 0\<rparr>]"
    using r3 by (simp add: Runtime_init_def test_limiter_def new_Promise_def setTimeout_def)
  have s: "run (test_limiter, Runtime_init) [Acquire, Acquire, Acquire] = (?lm, ?rt)"
    by (auto simp: run_def acquire_def Promise_resolve_def new_Promise_def setTimeout_def
        test_limiter_def Runtime_init_def)
  have d: "queue ?lm = [?A] @ ?B # [] \<and> (\<forall>x \<in> set [?A]. resolve x \<noteq> resolve ?B)
      \<and> timer ?B = resolve ?B \<and> timer ?B \<in> armed ?rt"
    by simp
  note r4 = acquire_admission [where lm = ?lm and rt = ?rt and ?q1.0 = "[?A]" and w = ?B
      and ?q2.0 = "[]", THEN conjunct2, THEN conjunct2, THEN conjunct2, THEN conjunct1,
      THEN mp, OF d, THEN conjunct1]
  have 4: "step (?lm, ?rt) (Fire 2)
       = (test_limiter\<lparr>inFlight := 1, queue := [?A]\<rparr>,
          \<lparr>settled = [0 \<mapsto> Fulfilled, 2 \<mapsto> Rejected (QueueTimeoutError 200)],
           armed = {1}, delay = [1 \<mapsto> 200, 2 \<mapsto> 200], fresh = 3\<rparr>)"
    using r4 by (auto simp: settle_def test_limiter_def)
  have e: "new_ConcurrencyLimiter 1 2 200 = Some test_limiter
      \<and> run (test_limiter, Runtime_init) [Acquire, Acquire, Acquire] = (?lm, ?rt)
      \<and> queue ?lm = [?A] @ ?B # []"
    using n s by simp
  note r5 = acquire_admission [where ?lm0.0 = test_limiter and mif = 1 and mq = 2 and et = 200
      and ops = "[Acquire, Acquire, Acquire]" and lm' = ?lm and rt' = ?rt and ?q1'.0 = "[?A]"
      and w' = ?B and ?q2'.0 = "[]", THEN conjunct2, THEN conjunct2, THEN conjunct2,
      THEN conjunct2, THEN mp, OF e]
  have 5: "settled ?rt (resolve ?B) = None" using r5 by blast
  show ?thesis using 1 2 3 4 5 s by simp
qed

section \<open>Properties of the request pipeline\<close>

text \<open>
  Claim C1 asks that a half-open probe admitted by \<open>allow\<close> is given back when the limiter
  then rejects the request. The pipeline does not do so. In the run below a client with
  one permit and no queue sees a timeout for key \<open>a\<close>, which opens the breaker; a request
  for key \<open>b\<close> then takes the permit; after the cooldown a request for \<open>a\<close> is admitted as
  the half-open probe (\<open>halfOpenInFlight\<close> goes from 0 to 1) and is rejected by the limiter
  with \<open>QueueFullError\<close>. \<open>halfOpenInFlight\<close> stays 1, and the next request for \<open>a\<close> is
  refused with \<open>CircuitOpenError\<close> although no probe is outstanding.
\<close>

theorem half_open_probe_leak:
  "new_ResilientHttpClient 1 0 200 500 leak_opts url = Some leak_client
   \<and> (let reqA = get_request ''a''; reqB = get_request ''b'';
          (pr1, c1, rt1) = request_begin leak_client Runtime_init reqA ''r1'' 1000;
          (pr2, c2, rt2) = request_acquired c1 rt1 reqA ''r1'' 0 1000;
          (pr3, c3, rt3) = request_done c2 rt2 reqA ''r1'' 1000
                              (Inl (RequestTimeoutError 500)) 1500 1500;
          (pr4, c4, rt4) = request_begin c3 rt3 reqB ''r2'' 1510;
          (pr5, c5, rt5) = request_acquired c4 rt4 reqB ''r2'' 1 1510;
          (pr6, c6, rt6) = request_begin c5 rt5 reqA ''r3'' 1700;
          (pr7, c7, rt7) = request_acquired c6 rt6 reqA ''r3'' 2 1700;
          (pr8, c8, rt8) = request_begin c7 rt7 reqA ''r4'' 1800
      in pr1 = AwaitAcquire 0 \<and> pr2 = AwaitTransport 1000
       \<and> pr3 = Settled (Threw (RequestTimeoutError 500))
       \<and> pr4 = AwaitAcquire 1 \<and> pr5 = AwaitTransport 1510
       \<and> state_of (breaker c5) ''a'' = OPEN
       \<and> map_option halfOpenInFlight (buckets (breaker c5) ''a'') = Some 0
       \<and> pr6 = AwaitAcquire 2
       \<and> pr7 = Settled (Threw (QueueFullError 0))
       \<and> state_of (breaker c7) ''a'' = HALF_OPEN
       \<and> map_option halfOpenInFlight (buckets (breaker c7) ''a'') = Some 1
       \<and> pr8 = Settled (Threw (CircuitOpenError ''a'' 0)))"
proof (rule conjI)
  show "new_ResilientHttpClient 1 0 200 500 leak_opts url = Some leak_client"
    by (simp add: new_ResilientHttpClient_def new_ConcurrencyLimiter_def new_CircuitBreaker_def
        leak_opts_def leak_client_def)
qed code_simp

text \<open>
  When no handler throws, \<open>emit\<close> only records the event, and each stretch of \<open>request\<close>
  makes one breaker call.
\<close>

lemma emit_quiet:
  "listeners c e = None \<Longrightarrow> emit c e = (None, c\<lparr>emitted := emitted c @ [e]\<rparr>)"
  by (simp add: emit_def)

lemma emit_change_quiet:
  "\<forall>e. listeners c e = None \<Longrightarrow>
   emit_change c key change = (None, c\<lparr>emitted := emitted c @ change_events key change\<rparr>)"
  by (simp add: emit_change_def emit_def change_events_def)

lemma try_block_response:
  assumes "\<forall>e. listeners c e = None"
  shows "try_block c req rid start (Inr res) nowMs endMs =
     (Inr res,
      c\<lparr>breaker := snd (if status res \<ge> 500 then onFailure (breaker c) (keyFn c req) nowMs
                           else onSuccess (breaker c) (keyFn c req)),
        emitted := emitted c
           @ change_events (keyFn c req)
               (fst (if status res \<ge> 500 then onFailure (breaker c) (keyFn c req) nowMs
                     else onSuccess (breaker c) (keyFn c req)))
           @ [RequestSuccess (keyFn c req) rid req (status res) (endMs - start)]\<rparr>)"
  using assms
  by (simp add: try_block_def emit_change_quiet emit_quiet Let_def split: prod.splits)

lemma catch_block_quiet:
  assumes "\<forall>e. listeners c e = None"
  shows "catch_block c req rid start err nowMs endMs =
     (err,
      c\<lparr>breaker := snd (onFailure (breaker c) (keyFn c req) nowMs),
        emitted := emitted c
           @ change_events (keyFn c req) (fst (onFailure (breaker c) (keyFn c req) nowMs))
           @ [RequestFailure (keyFn c req) rid req err (endMs - start)]\<rparr>)"
  using assms
  by (simp add: catch_block_def emit_change_quiet emit_quiet Let_def split: prod.splits)

lemma window_allow_bucket: "window (snd (allow_bucket os b nowMs)) = window b"
  by (simp add: allow_bucket_def allow_tail_def toHalfOpen_def Let_def)

lemma window_of_allow: "window_of (snd (allow br key nowMs)) k = window_of br k"
proof (cases "k = key")
  case True
  then show ?thesis
    by (simp add: allow_conv window_of_def bucket_def window_allow_bucket)
next
  case False
  then show ?thesis
    by (simp add: allow_conv window_of_def bucket_def Let_def split: option.splits)
qed

lemma request_done_response:
  assumes "request_done c rt req rid start (Inr res) nowMs endMs = (pr, c', rt')"
    and "\<forall>e. listeners c e = None"
  shows "breaker c' = snd (if status res \<ge> 500 then onFailure (breaker c) (keyFn c req) nowMs
                            else onSuccess (breaker c) (keyFn c req))"
    and "emitted c' = emitted c
           @ change_events (keyFn c req)
               (fst (if status res \<ge> 500 then onFailure (breaker c) (keyFn c req) nowMs
                     else onSuccess (breaker c) (keyFn c req)))
           @ [RequestSuccess (keyFn c req) rid req (status res) (endMs - start)]"
    and "0 < inFlight (limiter c) \<Longrightarrow>
         pr = Settled (Returned res) \<and> release (limiter c) rt = Inr (limiter c', rt')"
  using assms(1) unfolding request_done_def try_block_response [OF assms(2)]
  by (auto simp: Let_def release_def split: prod.splits sum.splits if_splits list.splits)

lemma request_done_thrown:
  assumes "request_done c rt req rid start (Inl err) nowMs endMs = (pr, c', rt')"
    and "\<forall>e. listeners c e = None"
  shows "breaker c' = snd (onFailure (breaker c) (keyFn c req) nowMs)"
    and "emitted c' = emitted c
           @ change_events (keyFn c req) (fst (onFailure (breaker c) (keyFn c req) nowMs))
           @ [RequestFailure (keyFn c req) rid req err (endMs - start)]"
    and "0 < inFlight (limiter c) \<Longrightarrow>
         pr = Settled (Threw err) \<and> release (limiter c) rt = Inr (limiter c', rt')"
  using assms(1) unfolding request_done_def
  by (auto simp: try_block_def catch_block_quiet [OF assms(2)] Let_def release_def
      split: prod.splits sum.splits if_splits list.splits)

lemma request_begin_breaker:
  assumes "request_begin c rt req rid nowMs = (pr, c', rt')"
  shows "breaker c' = snd (allow (breaker c) (keyFn c req) nowMs)"
    and "\<forall>k. window_of (breaker c') k = window_of (breaker c) k"
    and "\<not> allowed (fst (allow (breaker c) (keyFn c req) nowMs)) \<Longrightarrow>
         limiter c' = limiter c \<and> rt' = rt
         \<and> emitted c' = emitted c @ [RequestRejected (keyFn c req) rid req
              (CircuitOpenError (keyFn c req)
                (case retryAfterMs (fst (allow (breaker c) (keyFn c req) nowMs)) of
                   Some r \<Rightarrow> r | None \<Rightarrow> 0))]
         \<and> ((\<forall>e. listeners c e = None) \<longrightarrow>
              pr = Settled (Threw (CircuitOpenError (keyFn c req)
                (case retryAfterMs (fst (allow (breaker c) (keyFn c req) nowMs)) of
                   Some r \<Rightarrow> r | None \<Rightarrow> 0))))"
    and "allowed (fst (allow (breaker c) (keyFn c req) nowMs)) \<Longrightarrow>
         pr = AwaitAcquire (fst (acquire (limiter c) rt))
         \<and> (limiter c', rt') = snd (acquire (limiter c) rt) \<and> emitted c' = emitted c"
proof -
  show b: "breaker c' = snd (allow (breaker c) (keyFn c req) nowMs)"
    using assms by (auto simp: request_begin_def Let_def emit_def split: prod.splits if_splits)
  show "\<forall>k. window_of (breaker c') k = window_of (breaker c) k"
    unfolding b by (simp add: window_of_allow)
  show "\<not> allowed (fst (allow (breaker c) (keyFn c req) nowMs)) \<Longrightarrow>
         limiter c' = limiter c \<and> rt' = rt
         \<and> emitted c' = emitted c @ [RequestRejected (keyFn c req) rid req
              (CircuitOpenError (keyFn c req)
                (case retryAfterMs (fst (allow (breaker c) (keyFn c req) nowMs)) of
                   Some r \<Rightarrow> r | None \<Rightarrow> 0))]
         \<and> ((\<forall>e. listeners c e = None) \<longrightarrow>
              pr = Settled (Threw (CircuitOpenError (keyFn c req)
                (case retryAfterMs (fst (allow (breaker c) (keyFn c req) nowMs)) of
                   Some r \<Rightarrow> r | None \<Rightarrow> 0))))"
    using assms by (auto simp: request_begin_def Let_def emit_def split: prod.splits if_splits)
  show "allowed (fst (allow (breaker c) (keyFn c req) nowMs)) \<Longrightarrow>
         pr = AwaitAcquire (fst (acquire (limiter c) rt))
         \<and> (limiter c', rt') = snd (acquire (limiter c) rt) \<and> emitted c' = emitted c"
    using assms by (auto simp: request_begin_def Let_def emit_def split: prod.splits if_splits)
qed

lemma request_acquired_rejected:
  assumes "request_acquired c rt req rid p nowMs = (pr, c', rt')"
    and "settled rt p = Some (Rejected err)"
  shows "breaker c' = breaker c \<and> limiter c' = limiter c \<and> rt' = rt
       \<and> emitted c' = emitted c @ [RequestRejected (keyFn c req) rid req err]
       \<and> (listeners c (RequestRejected (keyFn c req) rid req err) = None \<longrightarrow>
            pr = Settled (Threw err))"
  using assms by (auto simp: request_acquired_def Let_def emit_def)

text \<open>
  Claim C2 asks for exactly one breaker call for each admitted request: \<open>onFailure\<close> for
  a response with status \<open>\<ge> 500\<close> or a thrown error, \<open>onSuccess\<close> for any other response.
  The calls for a response are made inside the \<open>try\<close> block, and so is the emission of
  \<open>request:success\<close>. When a handler of that event throws, control reaches the \<open>catch\<close>
  clause, which calls \<open>onFailure\<close> again. In the run below the client has one such
  handler. A response with status 503 is counted as two failures in the window of its
  key, and a response with status 200 as one success and one failure; in both cases
  \<open>request:success\<close> is followed by \<open>request:failure\<close> and the request ends with the
  handler's error.
\<close>

theorem listener_throw_double_failure:
  "new_ResilientHttpClient 1 0 200 500 test_opts url = Some quiet_client
   \<and> (let req = get_request ''a'';
          (pr1, c1, rt1) = request_begin watched_client Runtime_init req ''r1'' 1000;
          (pr2, c2, rt2) = request_acquired c1 rt1 req ''r1'' 0 1000;
          (pr3, c3, rt3) = request_done c2 rt2 req ''r1'' 1000 (Inr (response 503)) 1200 1200;
          (pr4, c4, rt4) = request_done c2 rt2 req ''r1'' 1000 (Inr (response 200)) 1200 1200
      in pr1 = AwaitAcquire 0 \<and> pr2 = AwaitTransport 1000
       \<and> count (window_of (breaker c2) ''a'') = 0
       \<and> pr3 = Settled (Threw (Error ''handler failed''))
       \<and> buckets (breaker c3) ''a''
            = buckets (snd (onFailure (snd (onFailure (breaker c2) ''a'' 1200)) ''a'' 1200)) ''a''
       \<and> count (window_of (breaker c3) ''a'') = 2
       \<and> failures (window_of (breaker c3) ''a'') = 2
       \<and> emitted c3 = [RequestStart ''a'' ''r1'' req,
                        RequestSuccess ''a'' ''r1'' req 503 200,
                        RequestFailure ''a'' ''r1'' req (Error ''handler failed'') 200]
       \<and> pr4 = Settled (Threw (Error ''handler failed''))
       \<and> buckets (breaker c4) ''a''
            = buckets (snd (onFailure (snd (onSuccess (breaker c2) ''a'')) ''a'' 1200)) ''a''
       \<and> count (window_of (breaker c4) ''a'') = 2
       \<and> failures (window_of (breaker c4) ''a'') = 1
       \<and> emitted c4 = [RequestStart ''a'' ''r1'' req,
                        RequestSuccess ''a'' ''r1'' req 200 200,
                        RequestFailure ''a'' ''r1'' req (Error ''handler failed'') 200])"
proof (rule conjI)
  show "new_ResilientHttpClient 1 0 200 500 test_opts url = Some quiet_client"
    by (simp add: new_ResilientHttpClient_def new_ConcurrencyLimiter_def new_CircuitBreaker_def
        test_opts_def quiet_client_def)
qed code_simp

end
